theory Spec2Isabelle
  imports Main "HOL-Library.Word" "HOL-Library.List_Lexorder" "HOL-Library.Product_Lexorder"
begin

section \<open>Data model\<close>

text \<open>
  Buffers are Python \<^verbatim>\<open>bytes\<close>: lists of 8-bit words, compared as unsigned numbers.
  Comparing two \<^verbatim>\<open>bytes\<close> values, or two tuples, is lexicographic; the order on
  lists and on products used below is that lexicographic order.
\<close>

type_synonym byte = "8 word"

text \<open>
  Modelled from the spec: the enumeration \<^verbatim>\<open>Status\<close> of \<^verbatim>\<open>conjecture.testdata\<close>, which
  is not among the source files. Section 3 of the specification orders it
  \<^verbatim>\<open>OVERRUN < INVALID < VALID < INTERESTING\<close>.
\<close>

datatype status = OVERRUN | INVALID | VALID | INTERESTING

fun status_rank :: "status \<Rightarrow> nat" where
  "status_rank OVERRUN = 0"
| "status_rank INVALID = 1"
| "status_rank VALID = 2"
| "status_rank INTERESTING = 3"

instantiation status :: linorder
begin

definition less_eq_status :: "status \<Rightarrow> status \<Rightarrow> bool" where
  "less_eq_status a b \<longleftrightarrow> status_rank a \<le> status_rank b"

definition less_status :: "status \<Rightarrow> status \<Rightarrow> bool" where
  "less_status a b \<longleftrightarrow> status_rank a < status_rank b"

instance
proof
  fix x y :: status
  show "x \<le> y \<Longrightarrow> y \<le> x \<Longrightarrow> x = y"
    by (cases x; cases y) (simp_all add: less_eq_status_def)
qed (auto simp: less_eq_status_def less_status_def)

end

text \<open>
  Modelled from the spec: a frozen \<^verbatim>\<open>TestData\<close> (class of \<^verbatim>\<open>conjecture.testdata\<close>, not
  among the source files) with the fields section 3 of the specification lists. The cost
  is a non-negative integer, intervals are pairs of byte positions.
\<close>

record testdata =
  buffer :: "byte list"
  index :: nat
  cost :: nat
  intervals :: "(nat \<times> nat) list"
  status :: status

text \<open>\<^verbatim>\<open>class Settings\<close>; the defaults are those of its constructor.\<close>

record settings =
  buffer_size :: nat
  mutations :: int
  generations :: int
  max_shrinks :: int

definition default_settings :: settings where
  "default_settings =
     \<lparr>buffer_size = 8 * 1024, mutations = 50, generations = 100, max_shrinks = 2000\<rparr>"

text \<open>
  What a run of the engine depends on besides the runner's own fields: the user's test
  callback, the settings, and the randomness the operating system and the \<^verbatim>\<open>random\<close>
  module hand out. The callback is a function of the buffer it reads from; it yields the
  frozen record of that execution. Randomness is a tape of raw draws, read from left to
  right through the cursor \<open>rpos\<close> of the runner; the theorems hold for every tape.
\<close>

record env =
  test_function :: "byte list \<Rightarrow> testdata"
  settings :: settings
  rnd :: "nat \<Rightarrow> nat"

text \<open>
  Modelled from the spec: \<^verbatim>\<open>data = TestData(buffer); self.test_function(data);
  data.freeze()\<close>. The buffer of the frozen record is the one given to the constructor;
  the early-termination signal \<^verbatim>\<open>StopTest\<close> is caught in \<^verbatim>\<open>TestRunner.test_function\<close>
  and shows only in the status.
\<close>

definition execute :: "env \<Rightarrow> byte list \<Rightarrow> testdata" where
  "execute e buf = (test_function e buf)\<lparr>buffer := buf\<rparr>"

text \<open>
  The log is a ghost field: it is not a field of \<^verbatim>\<open>TestRunner\<close>. Every execution of
  the callback appends one event to it (newest first), which says what became of the
  executed candidate.
\<close>

datatype event =
    NewBuffer testdata
  | Accepted testdata
  | Rejected testdata
  | Failed testdata

text \<open>
  \<^verbatim>\<open>TestRunner\<close>. The constructor leaves \<^verbatim>\<open>last_data\<close> unset (\<^verbatim>\<open>None\<close>); the fields it
  does set make up \<open>runner0\<close>, and \<open>runner\<close> is a runner whose \<^verbatim>\<open>last_data\<close> has been
  assigned. Python's unbounded integers are \<open>int\<close>; sizes are \<open>nat\<close>.
\<close>

record runner0 =
  changed :: int
  shrinks :: int
  fill_size :: nat
  rpos :: nat
  log :: "event list"

record runner = runner0 +
  last_data :: testdata

definition TestRunner_init :: "env \<Rightarrow> runner0" where
  "TestRunner_init e =
     \<lparr>changed = 0, shrinks = 0, fill_size = min 8 (buffer_size (settings e)),
      rpos = 0, log = []\<rparr>"

text \<open>
  Exceptions that leave a method of the runner. The fields assigned before the raise stay
  assigned, so a raise carries the runner's state as a normal return does.
\<close>

datatype exn = StopShrinking | AssertionError | ValueError

datatype ('a, 's) res = Ret 'a 's | Raise exn 's

section \<open>Randomness\<close>

text \<open>\<^verbatim>\<open>os.urandom(n)\<close>: the next \<open>n\<close> draws, each reduced to a byte.\<close>

definition urandom :: "env \<Rightarrow> nat \<Rightarrow> nat \<Rightarrow> byte list" where
  "urandom e n pos = map (\<lambda>i. of_nat (rnd e (pos + i))) [0..<n]"

text \<open>\<^verbatim>\<open>random.randint(a, b)\<close> for \<open>a \<le> b\<close>: the next draw, reduced to the range.\<close>

definition randint :: "env \<Rightarrow> nat \<Rightarrow> nat \<Rightarrow> nat \<Rightarrow> nat" where
  "randint e a b pos = a + rnd e pos mod (b - a + 1)"

section \<open>Interest key and candidate acceptor\<close>

text \<open>\<^verbatim>\<open>interest_key\<close>: a tuple, compared lexicographically.\<close>

definition interest_key :: "testdata \<Rightarrow> nat \<times> nat \<times> nat \<times> byte list" where
  "interest_key data = (cost data, length (intervals data), length (buffer data), buffer data)"

text \<open>
  \<^verbatim>\<open>TestRunner.consider_new_test_data\<close>; \<open>lastd\<close> is \<^verbatim>\<open>self.last_data\<close>, the only
  field of the runner the method reads. \<open>Inl AssertionError\<close> is the failing
  \<^verbatim>\<open>assert\<close> of the \<^verbatim>\<open>INTERESTING\<close> branch.
\<close>

definition consider_new_test_data :: "testdata \<Rightarrow> testdata \<Rightarrow> exn + bool" where
  "consider_new_test_data lastd data =
     (if status lastd < status data then Inr True
      else if status lastd > status data then Inr False
      else if status data = INVALID then Inr (index data \<ge> index lastd)
      else if status data = OVERRUN then Inr (index data \<le> index lastd)
      else if status data = INTERESTING then
        (if length (buffer data) \<le> length (buffer lastd)
         then Inr (interest_key data < interest_key lastd)
         else Inl AssertionError)
      else Inr True)"

section \<open>The runner's steps\<close>

text \<open>\<^verbatim>\<open>TestRunner.update_fill_size\<close>.\<close>

definition update_fill_size :: "env \<Rightarrow> runner \<Rightarrow> runner" where
  "update_fill_size e s =
     s\<lparr>fill_size := min (max (fill_size s) (index (last_data s) * 2))
                         (buffer_size (settings e))\<rparr>"

text \<open>
  \<^verbatim>\<open>TestRunner.new_buffer\<close>. It reads \<^verbatim>\<open>fill_size\<close> and the settings only, and assigns
  \<^verbatim>\<open>last_data\<close> whatever the previous value was; the acceptor is not consulted.
\<close>

definition new_buffer :: "env \<Rightarrow> 'a runner0_scheme \<Rightarrow> runner" where
  "new_buffer e s =
     (let buf = urandom e (fill_size s) (rpos s) @
                replicate (buffer_size (settings e) - fill_size s) 0;
          data = execute e buf
      in update_fill_size e
           \<lparr>changed = changed s, shrinks = shrinks s, fill_size = fill_size s,
            rpos = rpos s + fill_size s, log = NewBuffer data # log s,
            last_data = data\<rparr>)"

text \<open>\<^verbatim>\<open>TestRunner.incorporate_new_buffer\<close>.\<close>

definition incorporate_new_buffer :: "env \<Rightarrow> runner \<Rightarrow> byte list \<Rightarrow> (bool, runner) res" where
  "incorporate_new_buffer e s buf =
     (if buf = buffer (last_data s) then Ret False s
      else
        let data = execute e buf in
        case consider_new_test_data (last_data s) data of
          Inl x \<Rightarrow> Raise x (s\<lparr>log := Failed data # log s\<rparr>)
        | Inr False \<Rightarrow> Ret False (s\<lparr>log := Rejected data # log s\<rparr>)
        | Inr True \<Rightarrow>
            let s1 = s\<lparr>log := Accepted data # log s\<rparr>;
                s2 = (if status (last_data s1) = INTERESTING
                      then s1\<lparr>shrinks := shrinks s1 + 1\<rparr> else s1);
                s3 = s2\<lparr>last_data := data\<rparr>;
                s4 = update_fill_size e s3;
                s5 = s4\<lparr>changed := changed s4 + 1\<rparr>
            in if shrinks s5 \<ge> max_shrinks (settings e)
               then Raise StopShrinking s5
               else Ret True s5)"

section \<open>Loops\<close>

text \<open>
  A Python \<^verbatim>\<open>while\<close> loop over the loop variables \<open>v\<close> and the state \<open>s\<close>: \<open>b\<close> is
  the loop condition and \<open>c\<close> the body. A body that raises ends the loop with that
  exception; a loop (or a body) that runs forever has the value \<open>None\<close>.
\<close>

partial_function (option) while_loop ::
  "('a \<Rightarrow> 's \<Rightarrow> bool) \<Rightarrow> ('a \<Rightarrow> 's \<Rightarrow> ('a, 's) res option) \<Rightarrow> 'a \<Rightarrow> 's
     \<Rightarrow> ('a, 's) res option" where
  "while_loop b c v s =
     (if b v s then
        (case c v s of
           None \<Rightarrow> None
         | Some (Raise x s') \<Rightarrow> Some (Raise x s')
         | Some (Ret v' s') \<Rightarrow> while_loop b c v' s')
      else Some (Ret v s))"

text \<open>Python's \<^verbatim>\<open>xs[a:b]\<close> for non-negative \<open>a\<close> and \<open>b\<close>.\<close>

definition slice :: "'a list \<Rightarrow> nat \<Rightarrow> nat \<Rightarrow> 'a list" where
  "slice xs a b = drop a (take b xs)"

section \<open>The mutator\<close>

text \<open>
  The loop over the bytes in the \<^verbatim>\<open>OVERRUN\<close> branch of \<^verbatim>\<open>mutate_data_to_new_buffer\<close>:
  it fills \<^verbatim>\<open>result\<close> and moves the cursor of the random tape.
\<close>

fun perturb :: "env \<Rightarrow> byte list \<Rightarrow> nat \<Rightarrow> byte list \<times> nat" where
  "perturb e [] pos = ([], pos)"
| "perturb e (c # cs) pos =
     (let t = randint e 0 2 pos in
      if t = 0 then
        (let (r, pos') = perturb e cs (pos + 1) in (0 # r, pos'))
      else if t = 1 then
        (let (r, pos') = perturb e cs (pos + 2)
         in (of_nat (randint e 0 (unat c) (pos + 1)) # r, pos'))
      else
        (let (r, pos') = perturb e cs (pos + 1) in (c # r, pos')))"

text \<open>The \<^verbatim>\<open>while int1 == int2\<close> loop of the mutator; both start as \<^verbatim>\<open>None\<close>.\<close>

definition pick_intervals ::
  "env \<Rightarrow> testdata \<Rightarrow> nat
     \<Rightarrow> ((nat \<times> nat) option \<times> (nat \<times> nat) option, nat) res option" where
  "pick_intervals e data pos =
     while_loop (\<lambda>(int1, int2) pos. int1 = int2)
       (\<lambda>(int1, int2) pos.
          let i = randint e 0 (length (intervals data) - 2) pos;
              k = randint e (i + 1) (length (intervals data) - 1) (pos + 1)
          in Some (Ret (Some (intervals data ! i), Some (intervals data ! k)) (pos + 2)))
       (None, None) pos"

text \<open>
  \<^verbatim>\<open>mutate_data_to_new_buffer\<close>, from the cursor \<open>pos\<close> of the random tape; the result
  is the new buffer and the cursor after it. \<^verbatim>\<open>os.urandom\<close> of a negative length raises
  \<^verbatim>\<open>ValueError\<close>. The bytearray \<^verbatim>\<open>result\<close> of the \<^verbatim>\<open>OVERRUN\<close> branch is not read after
  that branch. The interval loop runs at least once and sets both intervals, so the last
  case of the swap branch does not occur.
\<close>

definition mutate_data_to_new_buffer ::
  "env \<Rightarrow> testdata \<Rightarrow> nat \<Rightarrow> (byte list, nat) res option" where
  "mutate_data_to_new_buffer e data pos =
     (let n = min (length (buffer data)) (index data) in
      if n = 0 then Some (Ret [] pos)
      else if n = 1 then Some (Ret (urandom e 1 pos) (pos + 1))
      else
        let (result, pos1) =
              (if status data = OVERRUN then perturb e (buffer data) pos
               else (buffer data, pos));
            probe = unat (hd (urandom e 1 pos1));
            pos2 = pos1 + 1
        in
        if probe \<le> 100 \<or> length (intervals data) \<le> 1 then
          let coin = randint e 0 1 pos2;
              (u, v, pos3) =
                (if coin \<noteq> 0 \<or> length (intervals data) \<le> 1 then
                   (let u = randint e 0 (length (buffer data) - 2) (pos2 + 1);
                        v = randint e (u + 1) (length (buffer data) - 1) (pos2 + 2)
                    in (u, v, pos2 + 3))
                 else
                   (let (u, v) = intervals data !
                          randint e 0 (length (intervals data) - 1) (pos2 + 1)
                    in (u, v, pos2 + 2)));
              c = randint e 0 2 pos3;
              pos4 = pos3 + 1
          in
          if c = 0 then
            Some (Ret (take u (buffer data) @ replicate (v - u) 0 @ drop v (buffer data)) pos4)
          else if c = 1 then
            Some (Ret (take u (buffer data) @ replicate (v - u) 255 @ drop v (buffer data)) pos4)
          else if v < u then Some (Raise ValueError pos4)
          else
            Some (Ret (take u (buffer data) @ urandom e (v - u) pos4 @ drop v (buffer data))
                      (pos4 + (v - u)))
        else
          (case pick_intervals e data pos2 of
             None \<Rightarrow> None
           | Some (Raise x pos3) \<Rightarrow> Some (Raise x pos3)
           | Some (Ret (int1, int2) pos3) \<Rightarrow>
               (case (int1, int2) of
                  (Some (u1, v1), Some (u2, v2)) \<Rightarrow>
                    Some (Ret (take u1 (buffer data) @ slice (buffer data) u2 v2 @
                               drop v1 (buffer data)) pos3)
                | _ \<Rightarrow> None)))"

section \<open>The shrink passes\<close>

text \<open>
  Each pass is the piece of \<^verbatim>\<open>TestRunner._run\<close> named in its comment; the body of a
  \<^verbatim>\<open>while\<close> loop is a function of its own, named after the pass. Indexing a buffer
  or the interval list happens only under the bound checked just before it, so there is
  no \<^verbatim>\<open>IndexError\<close> to model. A \<^verbatim>\<open>for\<close> loop runs over a range that is evaluated
  once, and is a recursion over that list.
\<close>

text \<open>Lines 133-140: delete intervals; the index stays when a deletion is accepted.\<close>

definition delete_intervals_body :: "env \<Rightarrow> nat \<Rightarrow> runner \<Rightarrow> (nat, runner) res" where
  "delete_intervals_body e i s =
     (let (u, v) = intervals (last_data s) ! i;
          buf = buffer (last_data s)
      in case incorporate_new_buffer e s (take u buf @ drop v buf) of
           Ret True s' \<Rightarrow> Ret i s'
         | Ret False s' \<Rightarrow> Ret (i + 1) s'
         | Raise x s' \<Rightarrow> Raise x s')"

definition delete_intervals_loop :: "env \<Rightarrow> runner \<Rightarrow> (nat, runner) res option" where
  "delete_intervals_loop e s =
     while_loop (\<lambda>i s. i < length (intervals (last_data s)))
       (\<lambda>i s. Some (delete_intervals_body e i s)) 0 s"

text \<open>Lines 130-140: repeat the deletion loop until it changes nothing.\<close>

definition delete_intervals_round :: "env \<Rightarrow> int \<Rightarrow> runner \<Rightarrow> (int, runner) res option" where
  "delete_intervals_round e interval_change_counter s =
     (case delete_intervals_loop e s of
        None \<Rightarrow> None
      | Some (Raise x s') \<Rightarrow> Some (Raise x s')
      | Some (Ret i s') \<Rightarrow> Some (Ret (changed s) s'))"

definition delete_intervals_pass :: "env \<Rightarrow> runner \<Rightarrow> (int, runner) res option" where
  "delete_intervals_pass e s =
     while_loop (\<lambda>interval_change_counter s. changed s > interval_change_counter)
       (delete_intervals_round e) (- 1) s"

text \<open>Lines 141-149: sort the bytes of each interval.\<close>

definition sort_intervals_body :: "env \<Rightarrow> nat \<Rightarrow> runner \<Rightarrow> (nat, runner) res" where
  "sort_intervals_body e i s =
     (let (u, v) = intervals (last_data s) ! i;
          buf = buffer (last_data s)
      in case incorporate_new_buffer e s (take u buf @ sort (slice buf u v) @ drop v buf) of
           Ret b s' \<Rightarrow> Ret (i + 1) s'
         | Raise x s' \<Rightarrow> Raise x s')"

definition sort_intervals_pass :: "env \<Rightarrow> runner \<Rightarrow> (nat, runner) res option" where
  "sort_intervals_pass e s =
     while_loop (\<lambda>i s. i < length (intervals (last_data s)))
       (\<lambda>i s. Some (sort_intervals_body e i s)) 0 s"

text \<open>Lines 150-157: zero a window of \<open>k = 8\<close> bytes.\<close>

fun zero_window_loop :: "env \<Rightarrow> nat list \<Rightarrow> runner \<Rightarrow> (unit, runner) res" where
  "zero_window_loop e [] s = Ret () s"
| "zero_window_loop e (i # is) s =
     (let buf = buffer (last_data s) in
      if i + 8 > length buf then Ret () s
      else
        case incorporate_new_buffer e s (take i buf @ replicate 8 0 @ drop (i + 8) buf) of
          Ret b s' \<Rightarrow> zero_window_loop e is s'
        | Raise x s' \<Rightarrow> Raise x s')"

definition zero_window_pass :: "env \<Rightarrow> runner \<Rightarrow> (unit, runner) res" where
  "zero_window_pass e s = zero_window_loop e [0..<length (buffer (last_data s)) - 8] s"

text \<open>
  Lines 164-174: lower the byte at \<open>i\<close> to \<open>c\<close>, the second time with a random tail;
  \<open>buf\<close> is the buffer read before the loop. The loop ends at the first acceptance.
\<close>

fun lower_byte_loop ::
  "env \<Rightarrow> byte list \<Rightarrow> nat \<Rightarrow> nat list \<Rightarrow> runner \<Rightarrow> (unit, runner) res" where
  "lower_byte_loop e buf i [] s = Ret () s"
| "lower_byte_loop e buf i (c # cs) s =
     (case incorporate_new_buffer e s (take i buf @ [of_nat c] @ drop (i + 1) buf) of
        Raise x s' \<Rightarrow> Raise x s'
      | Ret True s' \<Rightarrow> Ret () s'
      | Ret False s' \<Rightarrow>
          (let tail = urandom e (length buf - i - 1) (rpos s');
               s'' = s'\<lparr>rpos := rpos s' + (length buf - i - 1)\<rparr>
           in case incorporate_new_buffer e s'' (take i buf @ [of_nat c] @ tail) of
                Raise x t \<Rightarrow> Raise x t
              | Ret True t \<Rightarrow> Ret () t
              | Ret False t \<Rightarrow> lower_byte_loop e buf i cs t))"

text \<open>Lines 158-175: delete each byte, or else lower it.\<close>

definition single_byte_body :: "env \<Rightarrow> nat \<Rightarrow> runner \<Rightarrow> (nat, runner) res" where
  "single_byte_body e i s =
     (let buf = buffer (last_data s) in
      case incorporate_new_buffer e s (take i buf @ drop (i + 1) buf) of
        Raise x s' \<Rightarrow> Raise x s'
      | Ret True s' \<Rightarrow> Ret (i + 1) s'
      | Ret False s' \<Rightarrow>
          (case lower_byte_loop e buf i [0..<unat (buf ! i)] s' of
             Raise x t \<Rightarrow> Raise x t
           | Ret u t \<Rightarrow> Ret (i + 1) t))"

definition single_byte_pass :: "env \<Rightarrow> runner \<Rightarrow> (nat, runner) res option" where
  "single_byte_pass e s =
     while_loop (\<lambda>i s. i < length (buffer (last_data s)))
       (\<lambda>i s. Some (single_byte_body e i s)) 0 s"

text \<open>Lines 176-184: swap adjacent bytes that are in descending order.\<close>

definition adjacent_swap_body :: "env \<Rightarrow> nat \<Rightarrow> runner \<Rightarrow> (nat, runner) res" where
  "adjacent_swap_body e i s =
     (let j = i + 1;
          buf = buffer (last_data s)
      in if buf ! i > buf ! j then
           (case incorporate_new_buffer e s
                   (take i buf @ [buf ! j, buf ! i] @ drop (j + 1) buf) of
              Raise x s' \<Rightarrow> Raise x s'
            | Ret b s' \<Rightarrow> Ret (i + 1) s')
         else Ret (i + 1) s)"

definition adjacent_swap_pass :: "env \<Rightarrow> runner \<Rightarrow> (nat, runner) res option" where
  "adjacent_swap_pass e s =
     while_loop (\<lambda>i s. i + 1 < length (buffer (last_data s)))
       (\<lambda>i s. Some (adjacent_swap_body e i s)) 0 s"

text \<open>
  Lines 194-203: walk \<open>j\<close> left from \<open>i\<close> while it is positive, and borrow from the first
  positive byte found.
\<close>

fun borrow_loop :: "env \<Rightarrow> byte list \<Rightarrow> nat \<Rightarrow> nat \<Rightarrow> runner \<Rightarrow> (unit, runner) res" where
  "borrow_loop e buf i 0 s = Ret () s"
| "borrow_loop e buf i (Suc j) s =
     (if buf ! Suc j > 0 then
        (case incorporate_new_buffer e s
                (take (Suc j) buf @ [buf ! Suc j - 1] @ replicate (i - Suc j) 255 @
                 drop (i + 1) buf) of
           Raise x s' \<Rightarrow> Raise x s'
         | Ret b s' \<Rightarrow> Ret () s')
      else borrow_loop e buf i j s)"

text \<open>Lines 187-204: delete each byte, or else borrow from the left for a zero byte.\<close>

definition borrow_body :: "env \<Rightarrow> nat \<Rightarrow> runner \<Rightarrow> (nat, runner) res" where
  "borrow_body e i s =
     (let buf = buffer (last_data s) in
      case incorporate_new_buffer e s (take i buf @ drop (i + 1) buf) of
        Raise x s' \<Rightarrow> Raise x s'
      | Ret True s' \<Rightarrow> Ret (i + 1) s'
      | Ret False s' \<Rightarrow>
          (if buf ! i = 0 then
             (case borrow_loop e buf i i s' of
                Raise x t \<Rightarrow> Raise x t
              | Ret u t \<Rightarrow> Ret (i + 1) t)
           else Ret (i + 1) s'))"

definition borrow_pass :: "env \<Rightarrow> runner \<Rightarrow> (nat, runner) res option" where
  "borrow_pass e s =
     while_loop (\<lambda>i s. i < length (buffer (last_data s)))
       (\<lambda>i s. Some (borrow_body e i s)) 0 s"

text \<open>Lines 207-217: the pairs of positions that hold the same byte, bucket by bucket.\<close>

definition buckets :: "byte list \<Rightarrow> nat list list" where
  "buckets buf = map (\<lambda>c. filter (\<lambda>i. unat (buf ! i) = c) [0..<length buf]) [0..<256]"

definition pair_indices :: "byte list \<Rightarrow> (nat \<times> nat) list" where
  "pair_indices buf =
     concat (map (\<lambda>bucket.
                    if length bucket > 1 then
                      concat (map (\<lambda>j. map (\<lambda>k. (j, k)) (filter (\<lambda>k. j < k) bucket)) bucket)
                    else [])
                 (buckets buf))"

text \<open>Lines 240-246: lower both bytes of a pair to each \<open>d\<close> in turn.\<close>

fun lower_pair_loop :: "env \<Rightarrow> nat \<Rightarrow> nat \<Rightarrow> nat list \<Rightarrow> runner \<Rightarrow> (unit, runner) res" where
  "lower_pair_loop e j k [] s = Ret () s"
| "lower_pair_loop e j k (d # ds) s =
     (let buf = buffer (last_data s) in
      case incorporate_new_buffer e s
             (take j buf @ [of_nat d] @ slice buf (j + 1) k @ [of_nat d] @ drop (k + 1) buf) of
        Raise x s' \<Rightarrow> Raise x s'
      | Ret b s' \<Rightarrow> lower_pair_loop e j k ds s')"

text \<open>Lines 218-246: the loop over the pairs.\<close>

fun equal_pairs_loop :: "env \<Rightarrow> (nat \<times> nat) list \<Rightarrow> runner \<Rightarrow> (unit, runner) res" where
  "equal_pairs_loop e [] s = Ret () s"
| "equal_pairs_loop e ((j, k) # rest) s =
     (let buf = buffer (last_data s) in
      if k \<ge> length buf then equal_pairs_loop e rest s
      else if buf ! j = buf ! k then
        (case (if buf ! j = 0 \<and> j > 0 \<and> buf ! (j - 1) > 0 \<and> buf ! (k - 1) > 0 then
                 incorporate_new_buffer e s
                   (take (j - 1) buf @ [buf ! (j - 1) - 1, 255] @ slice buf (j + 1) (k - 1) @
                    [buf ! (k - 1) - 1, 255] @ drop (k + 1) buf)
               else Ret False s) of
           Raise x s1 \<Rightarrow> Raise x s1
         | Ret b s1 \<Rightarrow>
             (let c = buf ! j in
              if c > 0 then
                (case incorporate_new_buffer e s1
                        (take j buf @ [c - 1] @ slice buf (j + 1) k @ [c - 1] @
                         drop (k + 1) buf) of
                   Raise x s2 \<Rightarrow> Raise x s2
                 | Ret False s2 \<Rightarrow> equal_pairs_loop e rest s2
                 | Ret True s2 \<Rightarrow>
                     (case lower_pair_loop e j k [0..<unat c - 1] s2 of
                        Raise x s3 \<Rightarrow> Raise x s3
                      | Ret u s3 \<Rightarrow> equal_pairs_loop e rest s3))
              else equal_pairs_loop e rest s1))
      else equal_pairs_loop e rest s)"

definition equal_pairs_pass :: "env \<Rightarrow> runner \<Rightarrow> (unit, runner) res" where
  "equal_pairs_pass e s = equal_pairs_loop e (pair_indices (buffer (last_data s))) s"

text \<open>Lines 256-272: for one \<open>j\<close>, order and lower the byte at \<open>j\<close> with each later byte.\<close>

fun order_inner_loop :: "env \<Rightarrow> nat \<Rightarrow> nat list \<Rightarrow> runner \<Rightarrow> (unit, runner) res" where
  "order_inner_loop e j [] s = Ret () s"
| "order_inner_loop e j (k # ks) s =
     (let buf = buffer (last_data s) in
      if k \<ge> length buf then Ret () s
      else
        case (if buf ! j > buf ! k then
                incorporate_new_buffer e s
                  (take j buf @ [buf ! k] @ slice buf (j + 1) k @ [buf ! j] @ drop (k + 1) buf)
              else Ret False s) of
          Raise x s1 \<Rightarrow> Raise x s1
        | Ret b s1 \<Rightarrow>
            (let buf = buffer (last_data s1) in
             if k \<ge> length buf then Ret () s1
             else if buf ! j > 0 \<and> buf ! k > 0 then
               (case incorporate_new_buffer e s1
                       (take j buf @ [buf ! j - 1] @ slice buf (j + 1) k @ [buf ! k - 1] @
                        drop (k + 1) buf) of
                  Raise x s2 \<Rightarrow> Raise x s2
                | Ret b2 s2 \<Rightarrow> order_inner_loop e j ks s2)
             else order_inner_loop e j ks s1))"

text \<open>Lines 249-272: the loop over \<open>j\<close>.\<close>

fun order_pairs_loop :: "env \<Rightarrow> nat list \<Rightarrow> runner \<Rightarrow> (unit, runner) res" where
  "order_pairs_loop e [] s = Ret () s"
| "order_pairs_loop e (j # js) s =
     (let buf = buffer (last_data s) in
      if j \<ge> length buf then Ret () s
      else if buf ! j = 0 then order_pairs_loop e js s
      else
        case order_inner_loop e j [j + 1..<length buf] s of
          Raise x s' \<Rightarrow> Raise x s'
        | Ret u s' \<Rightarrow> order_pairs_loop e js s')"

definition order_pairs_pass :: "env \<Rightarrow> runner \<Rightarrow> (unit, runner) res" where
  "order_pairs_pass e s = order_pairs_loop e [0..<length (buffer (last_data s))] s"

section \<open>The engine\<close>

text \<open>Sequencing: run \<open>m\<close>, and unless it raised or ran forever go on with \<open>f\<close>.\<close>

definition then_do ::
  "('a, 's) res option \<Rightarrow> ('a \<Rightarrow> 's \<Rightarrow> ('b, 's) res option) \<Rightarrow> ('b, 's) res option" where
  "then_do m f =
     (case m of
        None \<Rightarrow> None
      | Some (Raise x s) \<Rightarrow> Some (Raise x s)
      | Some (Ret v s) \<Rightarrow> f v s)"

text \<open>
  Lines 107-120 of \<^verbatim>\<open>TestRunner._run\<close>: the generation phase. The loop variables are
  \<^verbatim>\<open>mutations\<close>, \<^verbatim>\<open>generation\<close> and whether the \<^verbatim>\<open>return\<close> of line 113 was taken.
\<close>

definition generation_loop ::
  "env \<Rightarrow> runner \<Rightarrow> (int \<times> int \<times> bool, runner) res option" where
  "generation_loop e s =
     while_loop
       (\<lambda>(mutations_done, generation, returned) s.
          \<not> returned \<and> status (last_data s) \<noteq> INTERESTING)
       (\<lambda>(mutations_done, generation, returned) s.
          if mutations_done \<ge> mutations (settings e) then
            (let generation = generation + 1 in
             if generation \<ge> generations (settings e)
             then Some (Ret (mutations_done, generation, True) s)
             else
               (case mutate_data_to_new_buffer e (last_data s) (rpos s) of
                  None \<Rightarrow> None
                | Some (Raise x pos) \<Rightarrow> Some (Raise x (s\<lparr>rpos := pos\<rparr>))
                | Some (Ret buf pos) \<Rightarrow>
                    (case incorporate_new_buffer e (s\<lparr>rpos := pos\<rparr>) buf of
                       Raise x s' \<Rightarrow> Some (Raise x s')
                     | Ret b s' \<Rightarrow> Some (Ret (0 + 1, generation, False) s'))))
          else Some (Ret (mutations_done + 1, generation, False) (new_buffer e s)))
       (0, 0, False) s"

text \<open>
  Lines 128-272: one round of the outer shrink loop. \<^verbatim>\<open>change_counter\<close> is the value of
  \<^verbatim>\<open>changed\<close> at the start of the round; each \<^verbatim>\<open>continue\<close> ends the round.
\<close>

definition shrink_sweep :: "env \<Rightarrow> runner \<Rightarrow> (unit, runner) res option" where
  "shrink_sweep e s =
     (if status (last_data s) \<noteq> INTERESTING then Some (Raise AssertionError s)
      else
        let change_counter = changed s in
        then_do (delete_intervals_pass e s) (\<lambda>_ s.
        then_do (sort_intervals_pass e s) (\<lambda>_ s.
        then_do (Some (zero_window_pass e s)) (\<lambda>_ s.
        then_do (single_byte_pass e s) (\<lambda>_ s.
        then_do (adjacent_swap_pass e s) (\<lambda>_ s.
        if changed s > change_counter then Some (Ret () s)
        else
        then_do (borrow_pass e s) (\<lambda>_ s.
        if changed s > change_counter then Some (Ret () s)
        else
        then_do (Some (equal_pairs_pass e s)) (\<lambda>_ s.
        if changed s > change_counter then Some (Ret () s)
        else Some (order_pairs_pass e s)))))))))"

text \<open>Lines 122-272: the shrink phase.\<close>

definition shrink_loop :: "env \<Rightarrow> runner \<Rightarrow> (int, runner) res option" where
  "shrink_loop e s =
     (let initial_changes = changed s in
      while_loop
        (\<lambda>change_counter s.
           initial_changes + max_shrinks (settings e) \<ge> changed s \<and>
           changed s > change_counter)
        (\<lambda>change_counter s.
           then_do (shrink_sweep e s) (\<lambda>_ s'. Some (Ret (changed s) s')))
        (- 1) s)"

text \<open>\<^verbatim>\<open>TestRunner._run\<close>, on a runner fresh from the constructor.\<close>

definition run_impl :: "env \<Rightarrow> (unit, runner) res option" where
  "run_impl e =
     then_do (generation_loop e (new_buffer e (TestRunner_init e)))
       (\<lambda>(mutations_done, generation, returned) s.
          if returned then Some (Ret () s)
          else then_do (shrink_loop e s) (\<lambda>_ s'. Some (Ret () s')))"

text \<open>\<^verbatim>\<open>TestRunner.run\<close>: \<^verbatim>\<open>StopShrinking\<close> is caught, any other exception goes on.\<close>

definition run :: "env \<Rightarrow> (unit, runner) res option" where
  "run e =
     (case run_impl e of
        None \<Rightarrow> None
      | Some (Raise x s) \<Rightarrow> (if x = StopShrinking then Some (Ret () s) else Some (Raise x s))
      | Some (Ret u s) \<Rightarrow> Some (Ret () s))"

text \<open>\<^verbatim>\<open>find_interesting_buffer\<close>; without a \<^verbatim>\<open>return\<close> Python returns \<^verbatim>\<open>None\<close>.\<close>

definition find_interesting_buffer :: "env \<Rightarrow> (byte list option, runner) res option" where
  "find_interesting_buffer e =
     then_do (run e)
       (\<lambda>_ s. Some (Ret (if status (last_data s) = INTERESTING
                          then Some (buffer (last_data s)) else None) s))"

section \<open>Reading the log\<close>

text \<open>The record an event installs as \<^verbatim>\<open>last_data\<close>, if it installs one.\<close>

fun installed :: "event \<Rightarrow> testdata option" where
  "installed (NewBuffer d) = Some d"
| "installed (Accepted d) = Some d"
| "installed (Rejected d) = None"
| "installed (Failed d) = None"

text \<open>The value of \<^verbatim>\<open>last_data\<close> after the events of a log (newest first).\<close>

fun current_of :: "event list \<Rightarrow> testdata option" where
  "current_of [] = None"
| "current_of (ev # evs) = (case installed ev of Some d \<Rightarrow> Some d | None \<Rightarrow> current_of evs)"

section \<open>Reachable states\<close>

text \<open>
  The buffers the shrink passes hand to \<^verbatim>\<open>incorporate_new_buffer\<close>, relative to the
  runner's current buffer: a buffer of the same length, the buffer without one of its
  bytes, or the buffer with the bytes of a recorded interval deleted or sorted.
\<close>

definition shrink_candidate :: "testdata \<Rightarrow> byte list \<Rightarrow> bool" where
  "shrink_candidate d b \<longleftrightarrow>
     (let buf = buffer d in
      length b = length buf \<or>
      (\<exists>i < length buf. b = take i buf @ drop (Suc i) buf) \<or>
      (\<exists>(u, v) \<in> set (intervals d).
         b = take u buf @ drop v buf \<or> b = take u buf @ sort (slice buf u v) @ drop v buf))"

definition candidate :: "runner \<Rightarrow> byte list \<Rightarrow> bool" where
  "candidate s b \<longleftrightarrow> shrink_candidate (last_data s) b"

text \<open>
  The states a run passes through after \<open>s0\<close>: by a fresh random buffer while the current
  record is not interesting, by incorporating a buffer (a candidate of a shrink pass once
  the current record is interesting, any buffer before), or by drawing randomness.
\<close>

inductive reach :: "env \<Rightarrow> runner \<Rightarrow> runner \<Rightarrow> bool" for e :: env and s0 :: runner where
  reach_refl: "reach e s0 s0"
| reach_fresh:
    "reach e s0 s \<Longrightarrow> status (last_data s) \<noteq> INTERESTING \<Longrightarrow> reach e s0 (new_buffer e s)"
| reach_step:
    "reach e s0 s \<Longrightarrow> (status (last_data s) = INTERESTING \<Longrightarrow> candidate s b) \<Longrightarrow>
     incorporate_new_buffer e s b = Ret x s' \<Longrightarrow> reach e s0 s'"
| reach_draw: "reach e s0 s \<Longrightarrow> reach e s0 (s\<lparr>rpos := n\<rparr>)"

text \<open>An exception raised by \<^verbatim>\<open>incorporate_new_buffer\<close> in a state reached from \<open>s0\<close>.\<close>

definition raised :: "env \<Rightarrow> runner \<Rightarrow> exn \<Rightarrow> runner \<Rightarrow> bool" where
  "raised e s0 x s' \<longleftrightarrow>
     (\<exists>s b. reach e s0 s \<and> (status (last_data s) = INTERESTING \<longrightarrow> candidate s b) \<and>
            incorporate_new_buffer e s b = Raise x s')"

definition follows :: "env \<Rightarrow> runner \<Rightarrow> ('a, runner) res \<Rightarrow> bool" where
  "follows e s0 r = (case r of Ret v s \<Rightarrow> reach e s0 s | Raise x s \<Rightarrow> raised e s0 x s)"

text \<open>
  The logs a run can write: it starts with a fresh random buffer; a further fresh buffer
  comes only while the current record is not interesting; every other event is an
  execution of a buffer handed to \<^verbatim>\<open>incorporate_new_buffer\<close>, filed under what the
  acceptor said of it against the current record.
\<close>

inductive logged :: "env \<Rightarrow> event list \<Rightarrow> bool" for e :: env where
  logged_init: "logged e [NewBuffer (execute e b)]"
| logged_fresh:
    "logged e evs \<Longrightarrow> current_of evs = Some p \<Longrightarrow> status p \<noteq> INTERESTING \<Longrightarrow>
     logged e (NewBuffer (execute e b) # evs)"
| logged_accepted:
    "logged e evs \<Longrightarrow> current_of evs = Some p \<Longrightarrow>
     (status p = INTERESTING \<Longrightarrow> shrink_candidate p b) \<Longrightarrow>
     consider_new_test_data p (execute e b) = Inr True \<Longrightarrow>
     logged e (Accepted (execute e b) # evs)"
| logged_rejected:
    "logged e evs \<Longrightarrow> current_of evs = Some p \<Longrightarrow>
     (status p = INTERESTING \<Longrightarrow> shrink_candidate p b) \<Longrightarrow>
     consider_new_test_data p (execute e b) = Inr False \<Longrightarrow>
     logged e (Rejected (execute e b) # evs)"
| logged_failed:
    "logged e evs \<Longrightarrow> current_of evs = Some p \<Longrightarrow>
     (status p = INTERESTING \<Longrightarrow> shrink_candidate p b) \<Longrightarrow>
     consider_new_test_data p (execute e b) = Inl AssertionError \<Longrightarrow>
     logged e (Failed (execute e b) # evs)"

text \<open>The runner a result leaves behind, whether it returned or raised.\<close>

fun state_of :: "('a, 's) res \<Rightarrow> 's" where
  "state_of (Ret v s) = s"
| "state_of (Raise x s) = s"

text \<open>The record of the execution an event stands for.\<close>

fun event_data :: "event \<Rightarrow> testdata" where
  "event_data (NewBuffer d) = d"
| "event_data (Accepted d) = d"
| "event_data (Rejected d) = d"
| "event_data (Failed d) = d"

text \<open>
  The acceptor was consulted for every candidate that went through
  \<^verbatim>\<open>incorporate_new_buffer\<close> and was executed: an accepted candidate had the acceptor's
  consent and a status at least that of the record it replaced, a rejected one had the
  acceptor's refusal. Fresh random buffers are not constrained.
\<close>

fun acceptor_obeyed :: "event list \<Rightarrow> bool" where
  "acceptor_obeyed [] = True"
| "acceptor_obeyed (ev # evs) =
     (acceptor_obeyed evs \<and>
      (case ev of
         Accepted d \<Rightarrow>
           (case current_of evs of
              None \<Rightarrow> False
            | Some p \<Rightarrow> consider_new_test_data p d = Inr True \<and> status p \<le> status d)
       | Rejected d \<Rightarrow>
           (case current_of evs of
              None \<Rightarrow> False
            | Some p \<Rightarrow> consider_new_test_data p d = Inr False)
       | _ \<Rightarrow> True))"

text \<open>
  The statuses of the successive values of \<^verbatim>\<open>last_data\<close>, oldest first, and what Claim
  C1 says of them.
\<close>

definition status_history :: "event list \<Rightarrow> status list" where
  "status_history evs = map status (List.map_filter installed (rev evs))"

text \<open>
  The number of accepted replacements of an interesting \<^verbatim>\<open>last_data\<close>: the accepted
  transitions of the shrink phase.
\<close>

fun shrink_count :: "event list \<Rightarrow> nat" where
  "shrink_count [] = 0"
| "shrink_count (ev # evs) =
     shrink_count evs +
     (case ev of
        Accepted d \<Rightarrow>
          (case current_of evs of
             None \<Rightarrow> 0
           | Some p \<Rightarrow> if status p = INTERESTING then 1 else 0)
      | _ \<Rightarrow> 0)"

text \<open>
  Once the current record is interesting, the only events that install a record are
  acceptances of an interesting candidate with a strictly smaller interest key.
\<close>

fun key_decreases :: "event list \<Rightarrow> bool" where
  "key_decreases [] = True"
| "key_decreases (ev # evs) =
     (key_decreases evs \<and>
      (case current_of evs of
         None \<Rightarrow> True
       | Some p \<Rightarrow>
           status p = INTERESTING \<longrightarrow>
             (case ev of
                Accepted d \<Rightarrow> status d = INTERESTING \<and> interest_key d < interest_key p
              | NewBuffer d \<Rightarrow> False
              | _ \<Rightarrow> True)))"

text \<open>
  No candidate executed while the current record was interesting was longer than the
  current buffer, and the assertion of the acceptor never failed.
\<close>

fun never_longer :: "event list \<Rightarrow> bool" where
  "never_longer [] = True"
| "never_longer (ev # evs) =
     (never_longer evs \<and>
      (case ev of Failed d \<Rightarrow> False | _ \<Rightarrow> True) \<and>
      (case current_of evs of
         None \<Rightarrow> True
       | Some p \<Rightarrow>
           status p = INTERESTING \<longrightarrow>
             length (buffer (event_data ev)) \<le> length (buffer p)))"

text \<open>
  Modelled from the spec: the interval integrity of \<^verbatim>\<open>TestData\<close> (section 8 of the
  specification), \<open>start \<le> end\<close> for every interval the callback records.
\<close>

definition interval_integrity :: "env \<Rightarrow> bool" where
  "interval_integrity e \<longleftrightarrow>
     (\<forall>b. \<forall>(u, v) \<in> set (intervals (test_function e b)). u \<le> v)"

section \<open>Concrete callbacks and settings\<close>

text \<open>
  A callback that reads nothing and always fails the property: every execution is
  \<^verbatim>\<open>INTERESTING\<close>, with no cost and no interval.
\<close>

definition always_interesting :: "byte list \<Rightarrow> testdata" where
  "always_interesting b =
     \<lparr>buffer = b, index = 0, cost = 0, intervals = [], status = INTERESTING\<rparr>"

text \<open>A callback that is \<^verbatim>\<open>VALID\<close> on the buffer of one zero byte and \<^verbatim>\<open>INVALID\<close> elsewhere.\<close>

definition valid_on_zero :: "byte list \<Rightarrow> testdata" where
  "valid_on_zero b =
     \<lparr>buffer = b, index = 0, cost = 0, intervals = [],
      status = (if b = [0] then VALID else INVALID)\<rparr>"

text \<open>One-byte buffers, one mutation, one generation; the tape of draws is all zero.\<close>

definition tiny_env :: env where
  "tiny_env =
     \<lparr>test_function = always_interesting,
      settings = \<lparr>buffer_size = 1, mutations = 1, generations = 1, max_shrinks = 5\<rparr>,
      rnd = (\<lambda>n. 0)\<rparr>"

text \<open>The same with a shrink budget of zero.\<close>

definition no_budget_env :: env where
  "no_budget_env =
     \<lparr>test_function = always_interesting,
      settings = \<lparr>buffer_size = 1, mutations = 1, generations = 1, max_shrinks = 0\<rparr>,
      rnd = (\<lambda>n. 0)\<rparr>"

text \<open>A run that never finds an interesting buffer; the tape of draws counts up.\<close>

definition dull_env :: env where
  "dull_env =
     \<lparr>test_function = valid_on_zero,
      settings = \<lparr>buffer_size = 1, mutations = 1, generations = 1, max_shrinks = 5\<rparr>,
      rnd = (\<lambda>n. n)\<rparr>"

text \<open>The same as \<open>tiny_env\<close> with a shrink budget of one.\<close>

definition budget_one_env :: env where
  "budget_one_env =
     \<lparr>test_function = always_interesting,
      settings = \<lparr>buffer_size = 1, mutations = 1, generations = 1, max_shrinks = 1\<rparr>,
      rnd = (\<lambda>n. 0)\<rparr>"

text \<open>
  A callback that reads the whole buffer as one span and always fails the property, and
  the one-byte settings with it.
\<close>

definition one_span :: "byte list \<Rightarrow> testdata" where
  "one_span b =
     \<lparr>buffer = b, index = length b, cost = 0,
      intervals = (if b = [] then [] else [(0, length b)]), status = INTERESTING\<rparr>"

definition span_env :: env where
  "span_env =
     \<lparr>test_function = one_span,
      settings = \<lparr>buffer_size = 1, mutations = 1, generations = 1, max_shrinks = 5\<rparr>,
      rnd = (\<lambda>n. 0)\<rparr>"

text \<open>
  The runner of \<open>tiny_env\<close> when the shrink phase starts, after the first fresh buffer, and
  when it ends.
\<close>

definition tiny_start :: runner where
  "tiny_start =
     \<lparr>changed = 0, shrinks = 0, fill_size = 1, rpos = 1,
      log = [NewBuffer (always_interesting [0])],
      last_data = always_interesting [0]\<rparr>"

definition tiny_final :: runner where
  "tiny_final =
     \<lparr>changed = 1, shrinks = 1, fill_size = 1, rpos = 1,
      log = [Accepted (always_interesting []), NewBuffer (always_interesting [0])],
      last_data = always_interesting []\<rparr>"

text \<open>
  The budget left: what the loops of the shrink phase count down each time a candidate is
  accepted.
\<close>

definition shrink_measure :: "env \<Rightarrow> runner \<Rightarrow> nat" where
  "shrink_measure e s = nat (max_shrinks (settings e) - shrinks s)"

text \<open>
  An \<^verbatim>\<open>OVERRUN\<close> record of three bytes, all read, and a tape of draws whose eighth draw
  is one.
\<close>

definition overrun_data :: testdata where
  "overrun_data = \<lparr>buffer = [5, 5, 5], index = 3, cost = 0, intervals = [], status = OVERRUN\<rparr>"

definition splice_env :: env where
  "splice_env =
     \<lparr>test_function = always_interesting, settings = default_settings,
      rnd = (\<lambda>n. if n = 7 then 1 else 0)\<rparr>"

text \<open>A runner whose interesting buffer is eight bytes of value one.\<close>

definition eight_bytes :: runner where
  "eight_bytes =
     \<lparr>changed = 0, shrinks = 0, fill_size = 8, rpos = 8,
      log = [NewBuffer (always_interesting [1, 1, 1, 1, 1, 1, 1, 1])],
      last_data = always_interesting [1, 1, 1, 1, 1, 1, 1, 1]\<rparr>"

section \<open>Properties of the acceptor\<close>

text \<open>
  Claim C2. The acceptor decides as the table of section 4.3 says: a candidate of higher
  status is accepted and one of lower status rejected; at equal status, an INVALID
  candidate is accepted iff its index is at least the current one, an OVERRUN candidate
  iff its index is at most the current one, an INTERESTING candidate that is no longer
  than the current buffer iff its interest key (cost, number of intervals, buffer length,
  buffer bytes; lexicographic) is strictly smaller, and a VALID candidate always.
\<close>

theorem consider_new_test_data_table:
  "(status lastd < status data \<longrightarrow> consider_new_test_data lastd data = Inr True) \<and>
   (status data < status lastd \<longrightarrow> consider_new_test_data lastd data = Inr False) \<and>
   (status data = status lastd \<and> status data = INVALID \<longrightarrow>
      consider_new_test_data lastd data = Inr (index data \<ge> index lastd)) \<and>
   (status data = status lastd \<and> status data = OVERRUN \<longrightarrow>
      consider_new_test_data lastd data = Inr (index data \<le> index lastd)) \<and>
   (status data = status lastd \<and> status data = INTERESTING \<and>
    length (buffer data) \<le> length (buffer lastd) \<longrightarrow>
      consider_new_test_data lastd data =
        Inr ((cost data, length (intervals data), length (buffer data), buffer data)
             < (cost lastd, length (intervals lastd), length (buffer lastd), buffer lastd))) \<and>
   (status data = status lastd \<and> status data = VALID \<longrightarrow>
      consider_new_test_data lastd data = Inr True)"
  by (auto simp: consider_new_test_data_def interest_key_def)

text \<open>The table at six pairs of records, one for each row.\<close>

theorem consider_new_test_data_table_witness:
  "consider_new_test_data
     \<lparr>buffer = [1, 2], index = 2, cost = 0, intervals = [], status = VALID\<rparr>
     \<lparr>buffer = [3], index = 1, cost = 0, intervals = [], status = INTERESTING\<rparr> = Inr True \<and>
   consider_new_test_data
     \<lparr>buffer = [1, 2], index = 2, cost = 0, intervals = [], status = VALID\<rparr>
     \<lparr>buffer = [3], index = 1, cost = 0, intervals = [], status = INVALID\<rparr> = Inr False \<and>
   consider_new_test_data
     \<lparr>buffer = [1, 2], index = 2, cost = 0, intervals = [], status = INVALID\<rparr>
     \<lparr>buffer = [3], index = 1, cost = 0, intervals = [], status = INVALID\<rparr> = Inr False \<and>
   consider_new_test_data
     \<lparr>buffer = [1, 2], index = 2, cost = 0, intervals = [], status = OVERRUN\<rparr>
     \<lparr>buffer = [3], index = 1, cost = 0, intervals = [], status = OVERRUN\<rparr> = Inr True \<and>
   consider_new_test_data
     \<lparr>buffer = [1, 2], index = 2, cost = 0, intervals = [], status = INTERESTING\<rparr>
     \<lparr>buffer = [1, 1], index = 2, cost = 0, intervals = [], status = INTERESTING\<rparr>
     = Inr True \<and>
   consider_new_test_data
     \<lparr>buffer = [1, 2], index = 2, cost = 0, intervals = [], status = VALID\<rparr>
     \<lparr>buffer = [3, 4, 5], index = 3, cost = 7, intervals = [], status = VALID\<rparr> = Inr True"
  using
    consider_new_test_data_table
      [of "\<lparr>buffer = [1, 2], index = 2, cost = 0, intervals = [], status = VALID\<rparr>"
          "\<lparr>buffer = [3], index = 1, cost = 0, intervals = [], status = INTERESTING\<rparr>"]
    consider_new_test_data_table
      [of "\<lparr>buffer = [1, 2], index = 2, cost = 0, intervals = [], status = VALID\<rparr>"
          "\<lparr>buffer = [3], index = 1, cost = 0, intervals = [], status = INVALID\<rparr>"]
    consider_new_test_data_table
      [of "\<lparr>buffer = [1, 2], index = 2, cost = 0, intervals = [], status = INVALID\<rparr>"
          "\<lparr>buffer = [3], index = 1, cost = 0, intervals = [], status = INVALID\<rparr>"]
    consider_new_test_data_table
      [of "\<lparr>buffer = [1, 2], index = 2, cost = 0, intervals = [], status = OVERRUN\<rparr>"
          "\<lparr>buffer = [3], index = 1, cost = 0, intervals = [], status = OVERRUN\<rparr>"]
    consider_new_test_data_table
      [of "\<lparr>buffer = [1, 2], index = 2, cost = 0, intervals = [], status = INTERESTING\<rparr>"
          "\<lparr>buffer = [1, 1], index = 2, cost = 0, intervals = [], status = INTERESTING\<rparr>"]
    consider_new_test_data_table
      [of "\<lparr>buffer = [1, 2], index = 2, cost = 0, intervals = [], status = VALID\<rparr>"
          "\<lparr>buffer = [3, 4, 5], index = 3, cost = 7, intervals = [], status = VALID\<rparr>"]
  by (simp add: less_status_def)

text \<open>
  Claim C10. A buffer equal to the current one is turned down at once: the result is
  \<^verbatim>\<open>False\<close> and the runner is left as it was, with its \<^verbatim>\<open>last_data\<close> and its counters
  \<^verbatim>\<open>changed\<close> and \<^verbatim>\<open>shrinks\<close>; the log gains no event, so the callback has not run.
\<close>

theorem incorporate_same_buffer:
  "buf = buffer (last_data s) \<Longrightarrow> incorporate_new_buffer e s buf = Ret False s"
  by (simp add: incorporate_new_buffer_def)

theorem incorporate_same_buffer_witness:
  "incorporate_new_buffer
     \<lparr>test_function = (\<lambda>b. \<lparr>buffer = b, index = 0, cost = 0, intervals = [],
                             status = INTERESTING\<rparr>),
      settings = default_settings, rnd = (\<lambda>n. 0)\<rparr>
     \<lparr>changed = 3, shrinks = 1, fill_size = 8, rpos = 8, log = [],
      last_data = \<lparr>buffer = [1, 2], index = 0, cost = 0, intervals = [],
                   status = INTERESTING\<rparr>\<rparr>
     [1, 2]
   = Ret False
     \<lparr>changed = 3, shrinks = 1, fill_size = 8, rpos = 8, log = [],
      last_data = \<lparr>buffer = [1, 2], index = 0, cost = 0, intervals = [],
                   status = INTERESTING\<rparr>\<rparr>"
  using incorporate_same_buffer
    [of "[1, 2]"
        "\<lparr>changed = 3, shrinks = 1, fill_size = 8, rpos = 8, log = [],
          last_data = \<lparr>buffer = [1, 2], index = 0, cost = 0, intervals = [],
                       status = INTERESTING\<rparr>\<rparr>"]
  by simp


lemma while_loop_rule:
  assumes "while_loop b c v s = Some r"
    and "I v s"
    and "\<And>v s v' s'. I v s \<Longrightarrow> b v s \<Longrightarrow> c v s = Some (Ret v' s') \<Longrightarrow> I v' s'"
    and "\<And>v s x s'. I v s \<Longrightarrow> b v s \<Longrightarrow> c v s = Some (Raise x s') \<Longrightarrow> Q x s'"
  shows "case r of Ret v' s' \<Rightarrow> I v' s' \<and> \<not> b v' s' | Raise x s' \<Rightarrow> Q x s'"
  using assms(2-)
proof (induction rule: while_loop.raw_induct[OF _ assms(1)])
  case (1 w b c v s r)
  show ?case
  proof (cases "b v s")
    case False
    with 1(2,3) show ?thesis by auto
  next
    case True
    show ?thesis
    proof (cases "c v s")
      case None
      with True 1(2) show ?thesis by simp
    next
      case (Some a)
      show ?thesis
      proof (cases a)
        case (Ret v' s')
        with True Some 1(2) have w: "w b c v' s' = Some r" by simp
        have "I v' s'" using 1(4)[OF 1(3) True] Some Ret by simp
        from 1(1)[OF w this 1(4) 1(5)] show ?thesis by simp
      next
        case (Raise x s')
        with True Some 1(2) have "r = Raise x s'" by simp
        moreover have "Q x s'" using 1(5)[OF 1(3) True] Some Raise by simp
        ultimately show ?thesis by simp
      qed
    qed
  qed
qed

lemma while_loop_terminates:
  assumes "wf R"
    and "I v s"
    and "\<And>v s. I v s \<Longrightarrow> b v s \<Longrightarrow>
           \<exists>r. c v s = Some r \<and>
               (\<forall>v' s'. r = Ret v' s' \<longrightarrow> I v' s' \<and> ((v', s'), (v, s)) \<in> R)"
  shows "\<exists>r. while_loop b c v s = Some r"
  using assms(1,2)
proof (induction "(v, s)" arbitrary: v s rule: wf_induct_rule)
  case less
  show ?case
  proof (cases "b v s")
    case False
    then show ?thesis by (subst while_loop.simps) simp
  next
    case True
    from assms(3)[OF less(2) True] obtain r where
      r: "c v s = Some r" and
      st: "\<And>v' s'. r = Ret v' s' \<Longrightarrow> I v' s' \<and> ((v', s'), (v, s)) \<in> R"
      by blast
    show ?thesis
    proof (cases r)
      case (Ret v' s')
      from st[OF Ret] less(1)[of v' s'] obtain r' where "while_loop b c v' s' = Some r'"
        by blast
      with True r Ret show ?thesis by (subst while_loop.simps) simp
    next
      case (Raise x s')
      with True r show ?thesis by (subst while_loop.simps) simp
    qed
  qed
qed


lemma follows_Ret [simp]: "follows e s0 (Ret v s) = reach e s0 s"
  by (simp add: follows_def)

lemma follows_Raise [simp]: "follows e s0 (Raise x s) = raised e s0 x s"
  by (simp add: follows_def)

lemma incorporate_follows:
  assumes "reach e s0 s" and "candidate s b"
  shows "follows e s0 (incorporate_new_buffer e s b)"
proof (cases "incorporate_new_buffer e s b")
  case (Ret x s')
  with assms show ?thesis by (auto intro: reach_step)
next
  case (Raise x s')
  with assms show ?thesis by (auto simp: raised_def)
qed

lemma incorporate_Ret_reach:
  "reach e s0 s \<Longrightarrow> candidate s b \<Longrightarrow> incorporate_new_buffer e s b = Ret x s' \<Longrightarrow> reach e s0 s'"
  by (auto intro: reach_step)

lemma incorporate_Raise_raised:
  "reach e s0 s \<Longrightarrow> candidate s b \<Longrightarrow> incorporate_new_buffer e s b = Raise x s' \<Longrightarrow>
   raised e s0 x s'"
  by (auto simp: raised_def)

lemma candidate_same_length: "length b = length (buffer (last_data s)) \<Longrightarrow> candidate s b"
  by (simp add: candidate_def shrink_candidate_def)

lemma candidate_delete:
  "i < length (buffer (last_data s)) \<Longrightarrow>
   candidate s (take i (buffer (last_data s)) @ drop (Suc i) (buffer (last_data s)))"
  by (auto simp: candidate_def shrink_candidate_def Let_def)

lemma zero_window_loop_follows:
  "reach e s0 s \<Longrightarrow> follows e s0 (zero_window_loop e is s)"
proof (induction "is" arbitrary: s)
  case Nil
  then show ?case by simp
next
  case (Cons i "is")
  show ?case
  proof (cases "i + 8 > length (buffer (last_data s))")
    case True
    with Cons.prems show ?thesis by simp
  next
    case False
    let ?b = "take i (buffer (last_data s)) @ replicate 8 0 @ drop (i + 8) (buffer (last_data s))"
    from False have c: "candidate s ?b" by (intro candidate_same_length) simp
    show ?thesis
      using False Cons.IH incorporate_Ret_reach[OF Cons.prems c]
        incorporate_Raise_raised[OF Cons.prems c]
      by (auto simp: Let_def split: res.splits)
  qed
qed


lemma buffer_execute [simp]: "buffer (execute e b) = b"
  by (simp add: execute_def)

lemma length_slice [simp]: "length (slice xs a b) = min b (length xs) - a"
  by (simp add: slice_def)

lemma incorporate_False:
  assumes "incorporate_new_buffer e s b = Ret False s'"
  shows "last_data s' = last_data s" "shrinks s' = shrinks s" "changed s' = changed s"
    "rpos s' = rpos s" "fill_size s' = fill_size s"
  using assms
  by (auto simp: incorporate_new_buffer_def Let_def update_fill_size_def
           split: if_splits sum.splits bool.splits)

lemma incorporate_True:
  assumes "incorporate_new_buffer e s b = Ret True s'"
  shows "last_data s' = execute e b"
    "consider_new_test_data (last_data s) (execute e b) = Inr True"
    "log s' = Accepted (execute e b) # log s"
    "changed s' = changed s + 1"
    "shrinks s' = (if status (last_data s) = INTERESTING then shrinks s + 1 else shrinks s)"
    "shrinks s' < max_shrinks (settings e)"
    "rpos s' = rpos s"
  using assms
  by (auto simp: incorporate_new_buffer_def Let_def update_fill_size_def
           split: if_splits sum.splits bool.splits)

lemma incorporate_Ret_length:
  assumes "incorporate_new_buffer e s b = Ret x s'"
    and "length b = length (buffer (last_data s))"
  shows "length (buffer (last_data s')) = length (buffer (last_data s))"
proof (cases x)
  case True
  with assms incorporate_True(1)[of e s b s'] show ?thesis by simp
next
  case False
  with assms incorporate_False(1)[of e s b s'] show ?thesis by simp
qed

lemma candidate_interval_delete:
  "i < length (intervals (last_data s)) \<Longrightarrow> intervals (last_data s) ! i = (u, v) \<Longrightarrow>
   candidate s (take u (buffer (last_data s)) @ drop v (buffer (last_data s)))"
  by (force simp: candidate_def shrink_candidate_def Let_def set_conv_nth)

lemma candidate_interval_sort:
  "i < length (intervals (last_data s)) \<Longrightarrow> intervals (last_data s) ! i = (u, v) \<Longrightarrow>
   candidate s (take u (buffer (last_data s)) @ sort (slice (buffer (last_data s)) u v) @
                drop v (buffer (last_data s)))"
  by (force simp: candidate_def shrink_candidate_def Let_def set_conv_nth)

lemma while_follows:
  assumes "while_loop b c v s = Some r" and "reach e s0 s"
    and "\<And>v s r. reach e s0 s \<Longrightarrow> b v s \<Longrightarrow> c v s = Some r \<Longrightarrow> follows e s0 r"
  shows "follows e s0 r"
proof -
  have "case r of Ret v' s' \<Rightarrow> reach e s0 s' \<and> \<not> b v' s' | Raise x s' \<Rightarrow> raised e s0 x s'"
    using assms(1,2)
  proof (rule while_loop_rule[where I = "\<lambda>v s. reach e s0 s" and Q = "raised e s0"])
    fix v s v' s'
    assume "reach e s0 s" "b v s" "c v s = Some (Ret v' s')"
    from assms(3)[OF this] show "reach e s0 s'" by simp
  next
    fix v s x s'
    assume "reach e s0 s" "b v s" "c v s = Some (Raise x s')"
    from assms(3)[OF this] show "raised e s0 x s'" by simp
  qed
  then show ?thesis by (cases r) simp_all
qed

lemma delete_intervals_body_follows:
  assumes "reach e s0 s" and i: "i < length (intervals (last_data s))"
  shows "follows e s0 (delete_intervals_body e i s)"
proof -
  obtain u v where uv: "intervals (last_data s) ! i = (u, v)" by fastforce
  note c = candidate_interval_delete[OF i uv]
  show ?thesis
    using uv incorporate_Ret_reach[OF assms(1) c] incorporate_Raise_raised[OF assms(1) c]
    by (auto simp: delete_intervals_body_def Let_def split: res.splits bool.splits)
qed

lemma delete_intervals_loop_follows:
  assumes "delete_intervals_loop e s = Some r" and "reach e s0 s"
  shows "follows e s0 r"
  using assms unfolding delete_intervals_loop_def
  by (rule while_follows) (auto intro: delete_intervals_body_follows)

lemma delete_intervals_round_follows:
  assumes "delete_intervals_round e c s = Some r" and "reach e s0 s"
  shows "follows e s0 r"
  using assms(1) delete_intervals_loop_follows[OF _ assms(2)]
  by (auto simp: delete_intervals_round_def split: option.splits res.splits)

lemma delete_intervals_pass_follows:
  assumes "delete_intervals_pass e s = Some r" and "reach e s0 s"
  shows "follows e s0 r"
  using assms unfolding delete_intervals_pass_def
  by (rule while_follows) (auto intro: delete_intervals_round_follows)

lemma sort_intervals_body_follows:
  assumes "reach e s0 s" and i: "i < length (intervals (last_data s))"
  shows "follows e s0 (sort_intervals_body e i s)"
proof -
  obtain u v where uv: "intervals (last_data s) ! i = (u, v)" by fastforce
  note c = candidate_interval_sort[OF i uv]
  show ?thesis
    using uv incorporate_Ret_reach[OF assms(1) c] incorporate_Raise_raised[OF assms(1) c]
    by (auto simp: sort_intervals_body_def Let_def split: res.splits bool.splits)
qed

lemma sort_intervals_pass_follows:
  assumes "sort_intervals_pass e s = Some r" and "reach e s0 s"
  shows "follows e s0 r"
  using assms unfolding sort_intervals_pass_def
  by (rule while_follows) (auto intro: sort_intervals_body_follows)

lemma zero_window_pass_follows: "reach e s0 s \<Longrightarrow> follows e s0 (zero_window_pass e s)"
  by (simp add: zero_window_pass_def zero_window_loop_follows)


lemma last_data_rpos_update [simp]: "last_data (s\<lparr>rpos := n\<rparr>) = last_data s"
  by simp

lemma candidate_rpos_update [simp]: "candidate (s\<lparr>rpos := n\<rparr>) b = candidate s b"
  by (simp add: candidate_def shrink_candidate_def)

lemma length_urandom [simp]: "length (urandom e n pos) = n"
  by (simp add: urandom_def)

lemma lower_byte_loop_follows:
  assumes "reach e s0 s" and "buffer (last_data s) = buf" and "i < length buf"
  shows "follows e s0 (lower_byte_loop e buf i cs s)"
  using assms
proof (induction cs arbitrary: s)
  case Nil
  then show ?case by simp
next
  case (Cons c cs)
  let ?b1 = "take i buf @ [of_nat c] @ drop (i + 1) buf"
  from Cons.prems have c1: "candidate s ?b1" by (intro candidate_same_length) simp
  show ?case
  proof (cases "incorporate_new_buffer e s ?b1")
    case (Raise x s')
    with incorporate_Raise_raised[OF Cons.prems(1) c1] show ?thesis by simp
  next
    case (Ret x s')
    note r1 = incorporate_Ret_reach[OF Cons.prems(1) c1 Ret]
    show ?thesis
    proof (cases x)
      case True
      with Ret r1 show ?thesis by simp
    next
      case False
      let ?s'' = "s'\<lparr>rpos := rpos s' + (length buf - i - 1)\<rparr>"
      let ?b2 = "take i buf @ [of_nat c] @ urandom e (length buf - i - 1) (rpos s')"
      from Ret False have ld: "last_data s' = last_data s" by (simp add: incorporate_False)
      have r2: "reach e s0 ?s''" using r1 by (rule reach_draw)
      from Cons.prems ld have c2: "candidate ?s'' ?b2"
        by (intro candidate_same_length) simp
      show ?thesis
      proof (cases "incorporate_new_buffer e ?s'' ?b2")
        case (Raise x2 t)
        with incorporate_Raise_raised[OF r2 c2] Ret False show ?thesis by (simp add: Let_def)
      next
        case Ret2: (Ret x2 t)
        note r3 = incorporate_Ret_reach[OF r2 c2 Ret2]
        show ?thesis
        proof (cases x2)
          case True
          with Ret False Ret2 r3 show ?thesis by (simp add: Let_def)
        next
          case F2: False
          from Ret2 F2 ld Cons.prems have "buffer (last_data t) = buf"
            by (simp add: incorporate_False)
          from Cons.IH[OF r3 this Cons.prems(3)] Ret False Ret2 F2 show ?thesis
            by (simp add: Let_def)
        qed
      qed
    qed
  qed
qed

lemma single_byte_body_follows:
  assumes r: "reach e s0 s" and i: "i < length (buffer (last_data s))"
  shows "follows e s0 (single_byte_body e i s)"
proof -
  let ?buf = "buffer (last_data s)"
  from candidate_delete[OF i] have c: "candidate s (take i ?buf @ drop (i + 1) ?buf)" by simp
  show ?thesis
  proof (cases "incorporate_new_buffer e s (take i ?buf @ drop (i + 1) ?buf)")
    case (Raise x s')
    with incorporate_Raise_raised[OF r c] show ?thesis
      by (auto simp: single_byte_body_def Let_def)
  next
    case (Ret x s')
    note r1 = incorporate_Ret_reach[OF r c Ret]
    show ?thesis
    proof (cases x)
      case True
      with Ret r1 show ?thesis by (auto simp: single_byte_body_def Let_def)
    next
      case False
      with Ret have "buffer (last_data s') = ?buf" by (simp add: incorporate_False)
      from lower_byte_loop_follows[OF r1 this i, of "[0..<unat (?buf ! i)]"] Ret False
      show ?thesis by (auto simp: single_byte_body_def Let_def split: res.splits)
    qed
  qed
qed

lemma single_byte_pass_follows:
  assumes "single_byte_pass e s = Some r" and "reach e s0 s"
  shows "follows e s0 r"
  using assms unfolding single_byte_pass_def
  by (rule while_follows) (auto intro: single_byte_body_follows)

lemma adjacent_swap_body_follows:
  assumes r: "reach e s0 s" and i: "i + 1 < length (buffer (last_data s))"
  shows "follows e s0 (adjacent_swap_body e i s)"
proof -
  let ?buf = "buffer (last_data s)"
  from i have c: "candidate s (take i ?buf @ [?buf ! (i + 1), ?buf ! i] @ drop (i + 1 + 1) ?buf)"
    by (intro candidate_same_length) simp
  show ?thesis
    using r incorporate_Ret_reach[OF r c] incorporate_Raise_raised[OF r c]
    by (auto simp: adjacent_swap_body_def Let_def split: res.splits if_splits)
qed

lemma adjacent_swap_pass_follows:
  assumes "adjacent_swap_pass e s = Some r" and "reach e s0 s"
  shows "follows e s0 r"
  using assms unfolding adjacent_swap_pass_def
  by (rule while_follows) (auto intro: adjacent_swap_body_follows)

lemma borrow_loop_follows:
  assumes "reach e s0 s" and "buffer (last_data s) = buf" and "j \<le> i" and "i < length buf"
  shows "follows e s0 (borrow_loop e buf i j s)"
  using assms
proof (induction j)
  case 0
  then show ?case by simp
next
  case (Suc j)
  let ?b = "take (Suc j) buf @ [buf ! Suc j - 1] @ replicate (i - Suc j) 255 @ drop (i + 1) buf"
  from Suc.prems have c: "candidate s ?b" by (intro candidate_same_length) simp
  show ?case
    using Suc incorporate_Ret_reach[OF Suc.prems(1) c] incorporate_Raise_raised[OF Suc.prems(1) c]
    by (auto split: res.splits)
qed

lemma borrow_body_follows:
  assumes r: "reach e s0 s" and i: "i < length (buffer (last_data s))"
  shows "follows e s0 (borrow_body e i s)"
proof -
  let ?buf = "buffer (last_data s)"
  from candidate_delete[OF i] have c: "candidate s (take i ?buf @ drop (i + 1) ?buf)" by simp
  show ?thesis
  proof (cases "incorporate_new_buffer e s (take i ?buf @ drop (i + 1) ?buf)")
    case (Raise x s')
    with incorporate_Raise_raised[OF r c] show ?thesis
      by (auto simp: borrow_body_def Let_def)
  next
    case (Ret x s')
    note r1 = incorporate_Ret_reach[OF r c Ret]
    show ?thesis
    proof (cases x)
      case True
      with Ret r1 show ?thesis by (auto simp: borrow_body_def Let_def)
    next
      case False
      with Ret have "buffer (last_data s') = ?buf" by (simp add: incorporate_False)
      from borrow_loop_follows[OF r1 this _ i, of i] Ret False r1
      show ?thesis by (auto simp: borrow_body_def Let_def split: res.splits if_splits)
    qed
  qed
qed

lemma borrow_pass_follows:
  assumes "borrow_pass e s = Some r" and "reach e s0 s"
  shows "follows e s0 r"
  using assms unfolding borrow_pass_def
  by (rule while_follows) (auto intro: borrow_body_follows)

lemma lower_pair_loop_follows:
  assumes "reach e s0 s" and "j < k" and "k < length (buffer (last_data s))"
  shows "follows e s0 (lower_pair_loop e j k ds s)"
  using assms
proof (induction ds arbitrary: s)
  case Nil
  then show ?case by simp
next
  case (Cons d ds)
  let ?buf = "buffer (last_data s)"
  let ?b = "take j ?buf @ [of_nat d] @ slice ?buf (j + 1) k @ [of_nat d] @ drop (k + 1) ?buf"
  from Cons.prems have len: "length ?b = length ?buf" by simp
  then have c: "candidate s ?b" by (rule candidate_same_length)
  show ?case
  proof (cases "incorporate_new_buffer e s ?b")
    case (Raise x s')
    with incorporate_Raise_raised[OF Cons.prems(1) c] show ?thesis by (simp add: Let_def)
  next
    case (Ret x s')
    note r1 = incorporate_Ret_reach[OF Cons.prems(1) c Ret]
    from incorporate_Ret_length[OF Ret len] Cons.prems
    have "k < length (buffer (last_data s'))" by simp
    from Cons.IH[OF r1 Cons.prems(2) this] Ret show ?thesis by (simp add: Let_def)
  qed
qed

lemma equal_pairs_loop_follows:
  assumes "reach e s0 s" and "\<forall>(j, k) \<in> set pairs. j < k"
  shows "follows e s0 (equal_pairs_loop e pairs s)"
  using assms
proof (induction pairs arbitrary: s)
  case Nil
  then show ?case by simp
next
  case (Cons p pairs)
  obtain j k where p: "p = (j, k)" by (cases p)
  with Cons.prems have jk: "j < k" and rest: "\<forall>(j, k) \<in> set pairs. j < k" by auto
  note IH = Cons.IH[OF _ rest]
  let ?buf = "buffer (last_data s)"
  show ?case
  proof (cases "k \<ge> length ?buf \<or> ?buf ! j \<noteq> ?buf ! k")
    case True
    with p IH[OF Cons.prems(1)] show ?thesis by (auto simp: Let_def)
  next
    case False
    then have k: "k < length ?buf" and eq: "?buf ! j = ?buf ! k" by auto
    show ?thesis
    proof (cases "?buf ! j = 0")
      case zero: True
      show ?thesis
      proof (cases "j > 0 \<and> ?buf ! (j - 1) > 0 \<and> ?buf ! (k - 1) > 0")
        case True
        let ?b = "take (j - 1) ?buf @ [?buf ! (j - 1) - 1, 255] @ slice ?buf (j + 1) (k - 1) @
                  [?buf ! (k - 1) - 1, 255] @ drop (k + 1) ?buf"
        from True zero have "k - 1 \<noteq> j" by auto
        with jk k True have "length ?b = length ?buf" by simp arith
        then have c: "candidate s ?b" by (rule candidate_same_length)
        show ?thesis
        proof (cases "incorporate_new_buffer e s ?b")
          case (Raise x s')
          with incorporate_Raise_raised[OF Cons.prems(1) c] p k eq zero True
          show ?thesis by (simp add: Let_def)
        next
          case (Ret x s')
          note r1 = incorporate_Ret_reach[OF Cons.prems(1) c Ret]
          from IH[OF r1] Ret p k eq zero True show ?thesis by (simp add: Let_def)
        qed
      next
        case False
        with p k eq zero IH[OF Cons.prems(1)] show ?thesis by (auto simp: Let_def)
      qed
    next
      case pos: False
      then have gt: "?buf ! j > 0" by (simp add: word_greater_zero_iff)
      let ?c = "?buf ! j"
      let ?b = "take j ?buf @ [?c - 1] @ slice ?buf (j + 1) k @ [?c - 1] @ drop (k + 1) ?buf"
      from jk k have len: "length ?b = length ?buf" by simp
      then have c: "candidate s ?b" by (rule candidate_same_length)
      show ?thesis
      proof (cases "incorporate_new_buffer e s ?b")
        case (Raise x s')
        with incorporate_Raise_raised[OF Cons.prems(1) c] p k eq pos gt
        show ?thesis by (simp add: Let_def)
      next
        case (Ret x s')
        note r1 = incorporate_Ret_reach[OF Cons.prems(1) c Ret]
        show ?thesis
        proof (cases x)
          case False
          with IH[OF r1] Ret p k eq pos gt show ?thesis by (simp add: Let_def)
        next
          case True
          from incorporate_Ret_length[OF Ret len] k
          have k': "k < length (buffer (last_data s'))" by simp
          note lp = lower_pair_loop_follows[OF r1 jk k', of "[0..<unat ?c - 1]"]
          show ?thesis
          proof (cases "lower_pair_loop e j k [0..<unat ?c - 1] s'")
            case (Raise x3 s3)
            with lp Ret True p k eq pos gt show ?thesis by (simp add: Let_def)
          next
            case R3: (Ret u s3)
            with lp have "reach e s0 s3" by simp
            from IH[OF this] Ret True R3 p k eq pos gt show ?thesis by (simp add: Let_def)
          qed
        qed
      qed
    qed
  qed
qed

lemma pair_indices_ordered: "\<forall>(j, k) \<in> set (pair_indices buf). j < k"
  by (auto simp: pair_indices_def split: if_splits)

lemma equal_pairs_pass_follows: "reach e s0 s \<Longrightarrow> follows e s0 (equal_pairs_pass e s)"
  by (simp add: equal_pairs_pass_def equal_pairs_loop_follows pair_indices_ordered)

lemma order_inner_loop_follows:
  assumes "reach e s0 s" and "\<forall>k \<in> set ks. j < k"
  shows "follows e s0 (order_inner_loop e j ks s)"
  using assms
proof (induction ks arbitrary: s)
  case Nil
  then show ?case by simp
next
  case (Cons k ks)
  then have jk: "j < k" and rest: "\<forall>k \<in> set ks. j < k" by auto
  note IH = Cons.IH[OF _ rest]
  let ?buf = "buffer (last_data s)"
  show ?case
  proof (cases "k \<ge> length ?buf")
    case True
    with Cons.prems show ?thesis by (simp add: Let_def)
  next
    case False
    then have k: "k < length ?buf" by simp
    let ?b = "take j ?buf @ [?buf ! k] @ slice ?buf (j + 1) k @ [?buf ! j] @ drop (k + 1) ?buf"
    let ?first = "if ?buf ! j > ?buf ! k then incorporate_new_buffer e s ?b else Ret False s"
    from jk k have len: "length ?b = length ?buf" by simp
    then have c: "candidate s ?b" by (rule candidate_same_length)
    have first: "follows e s0 ?first"
      using Cons.prems(1) incorporate_follows[OF Cons.prems(1) c] by simp
    show ?thesis
    proof (cases ?first)
      case (Raise x s1)
      with first k show ?thesis by (simp add: Let_def)
    next
      case (Ret x s1)
      with first have r1: "reach e s0 s1" by simp
      let ?buf1 = "buffer (last_data s1)"
      show ?thesis
      proof (cases "k \<ge> length ?buf1")
        case True
        with Ret k r1 show ?thesis by (simp add: Let_def)
      next
        case F1: False
        then have k1: "k < length ?buf1" by simp
        show ?thesis
        proof (cases "?buf1 ! j > 0 \<and> ?buf1 ! k > 0")
          case False
          with Ret k k1 IH[OF r1] show ?thesis by (auto simp: Let_def)
        next
          case True
          let ?b2 = "take j ?buf1 @ [?buf1 ! j - 1] @ slice ?buf1 (j + 1) k @ [?buf1 ! k - 1] @
                     drop (k + 1) ?buf1"
          from jk k1 have "length ?b2 = length ?buf1" by simp
          then have c2: "candidate s1 ?b2" by (rule candidate_same_length)
          show ?thesis
          proof (cases "incorporate_new_buffer e s1 ?b2")
            case (Raise x2 s2)
            with incorporate_Raise_raised[OF r1 c2] Ret k k1 True
            show ?thesis by (simp add: Let_def)
          next
            case R2: (Ret x2 s2)
            note r2 = incorporate_Ret_reach[OF r1 c2 R2]
            from IH[OF r2] Ret R2 k k1 True show ?thesis by (simp add: Let_def)
          qed
        qed
      qed
    qed
  qed
qed

lemma order_pairs_loop_follows:
  assumes "reach e s0 s"
  shows "follows e s0 (order_pairs_loop e js s)"
  using assms
proof (induction js arbitrary: s)
  case Nil
  then show ?case by simp
next
  case (Cons j js)
  let ?buf = "buffer (last_data s)"
  have inner: "follows e s0 (order_inner_loop e j [j + 1..<length ?buf] s)"
    by (rule order_inner_loop_follows[OF Cons.prems]) simp
  show ?case
    using Cons inner
    by (cases "order_inner_loop e j [j + 1..<length ?buf] s") (auto simp: Let_def)
qed

lemma order_pairs_pass_follows: "reach e s0 s \<Longrightarrow> follows e s0 (order_pairs_pass e s)"
  by (simp add: order_pairs_pass_def order_pairs_loop_follows)


lemma then_do_SomeE:
  assumes "then_do m f = Some r"
  obtains (ret) v s where "m = Some (Ret v s)" "f v s = Some r"
        | (raise) x s where "m = Some (Raise x s)" "r = Raise x s"
  using assms by (auto simp: then_do_def split: option.splits res.splits)

lemma consider_True_status:
  "consider_new_test_data p d = Inr True \<Longrightarrow> status p \<le> status d"
  by (auto simp: consider_new_test_data_def split: if_splits)

lemma consider_True_interesting:
  assumes "consider_new_test_data p d = Inr True" and "status p = INTERESTING"
  shows "status d = INTERESTING" "interest_key d < interest_key p"
    "length (buffer d) \<le> length (buffer p)"
  using assms
  by (cases "status d"; auto simp: consider_new_test_data_def less_status_def split: if_splits)+

lemma incorporate_interesting:
  assumes "incorporate_new_buffer e s b = Ret x s'" and "status (last_data s) = INTERESTING"
  shows "status (last_data s') = INTERESTING"
proof (cases x)
  case True
  with assms incorporate_True(1,2)[of e s b s'] consider_True_interesting(1) show ?thesis
    by auto
next
  case False
  with assms incorporate_False(1)[of e s b s'] show ?thesis by simp
qed

lemma reach_interesting:
  "reach e s0 s \<Longrightarrow> status (last_data s0) = INTERESTING \<Longrightarrow> status (last_data s) = INTERESTING"
  by (induction rule: reach.induct) (auto dest: incorporate_interesting)

lemma reach_trans: "reach e s1 s2 \<Longrightarrow> reach e s0 s1 \<Longrightarrow> reach e s0 s2"
  by (induction rule: reach.induct) (auto intro: reach.intros)

lemma then_do_follows [consumes 1, case_names first rest]:
  assumes "then_do m f = Some r"
    and "\<And>r'. m = Some r' \<Longrightarrow> follows e init r'"
    and "\<And>v s'. reach e init s' \<Longrightarrow> f v s' = Some r \<Longrightarrow> follows e init r"
  shows "follows e init r"
  using assms(1)
proof (cases rule: then_do_SomeE)
  case (ret v s)
  with assms(2)[of "Ret v s"] assms(3)[of s v] show ?thesis by simp
next
  case (raise x s)
  with assms(2)[of "Raise x s"] show ?thesis by simp
qed

lemma if_not_SomeD: "(if c then a else b) = Some r \<Longrightarrow> \<not> c \<Longrightarrow> b = Some r"
  by simp

lemma shrink_sweep_follows:
  assumes "shrink_sweep e s = Some r" and "reach e s0 s"
    and "status (last_data s) = INTERESTING"
  shows "follows e s0 r"
proof -
  note sw = if_not_SomeD[OF assms(1)[unfolded shrink_sweep_def Let_def]]
  from assms(3) have ni: "\<not> status (last_data s) \<noteq> INTERESTING" by simp
  from sw[OF ni] show ?thesis
  proof (cases rule: then_do_follows[where e = e and init = s0])
    case (first r')
    then show "follows e s0 r'" by (rule delete_intervals_pass_follows[OF _ assms(2)])
  next
    case (rest v1 s1)
    from rest(2) show ?thesis
    proof (cases rule: then_do_follows[where e = e and init = s0])
      case (first r')
      then show "follows e s0 r'" by (rule sort_intervals_pass_follows[OF _ rest(1)])
    next
      case (rest v2 s2)
      from rest(2) show ?thesis
      proof (cases rule: then_do_follows[where e = e and init = s0])
        case (first r')
        with zero_window_pass_follows[OF rest(1)] show "follows e s0 r'" by auto
      next
        case (rest v3 s3)
        from rest(2) show ?thesis
        proof (cases rule: then_do_follows[where e = e and init = s0])
          case (first r')
          then show "follows e s0 r'" by (rule single_byte_pass_follows[OF _ rest(1)])
        next
          case (rest v4 s4)
          from rest(2) show ?thesis
          proof (cases rule: then_do_follows[where e = e and init = s0])
            case (first r')
            then show "follows e s0 r'" by (rule adjacent_swap_pass_follows[OF _ rest(1)])
          next
            case (rest v5 s5)
            show ?thesis
            proof (cases "changed s5 > changed s")
              case True
              with rest show ?thesis by auto
            next
              case False
              note f5 = if_not_SomeD[OF rest(2) False]
              from f5 show ?thesis
              proof (cases rule: then_do_follows[where e = e and init = s0])
                case (first r')
                then show "follows e s0 r'" by (rule borrow_pass_follows[OF _ rest(1)])
              next
                case r6: (rest v6 s6)
                show ?thesis
                proof (cases "changed s6 > changed s")
                  case True
                  with r6 show ?thesis by auto
                next
                  case F6: False
                  note f6 = if_not_SomeD[OF r6(2) F6]
                  from f6 show ?thesis
                  proof (cases rule: then_do_follows[where e = e and init = s0])
                    case (first r')
                    with equal_pairs_pass_follows[OF r6(1)] show "follows e s0 r'" by auto
                  next
                    case r7: (rest v7 s7)
                    with order_pairs_pass_follows[OF r7(1)] show ?thesis
                      by (auto split: if_splits)
                  qed
                qed
              qed
            qed
          qed
        qed
      qed
    qed
  qed
qed

lemma shrink_loop_follows:
  assumes "shrink_loop e s = Some r" and "reach e s0 s"
    and "status (last_data s) = INTERESTING"
  shows "follows e s0 r"
proof -
  let ?I = "\<lambda>(v::int) t. reach e s0 t \<and> reach e s t"
  have "case r of Ret v' s' \<Rightarrow> ?I v' s' \<and>
          \<not> (changed s + max_shrinks (settings e) \<ge> changed s' \<and> changed s' > v')
        | Raise x s' \<Rightarrow> raised e s0 x s'"
    using assms(1)[unfolded shrink_loop_def Let_def]
  proof (rule while_loop_rule[where I = ?I and Q = "raised e s0"])
    show "?I (- 1) s" using assms(2) by (simp add: reach_refl)
  next
    fix v t v' t'
    assume I: "?I v t"
      and b: "then_do (shrink_sweep e t) (\<lambda>_ s'. Some (Ret (changed t) s')) = Some (Ret v' t')"
    from I assms(3) have int: "status (last_data t) = INTERESTING"
      by (auto dest: reach_interesting)
    from b have sw: "shrink_sweep e t = Some (Ret () t')"
      by (cases rule: then_do_SomeE) auto
    from shrink_sweep_follows[OF sw _ int, of s0] shrink_sweep_follows[OF sw _ int, of s] I
    show "?I v' t'" by simp
  next
    fix v t x t'
    assume I: "?I v t"
      and b: "then_do (shrink_sweep e t) (\<lambda>_ s'. Some (Ret (changed t) s')) = Some (Raise x t')"
    from I assms(3) have int: "status (last_data t) = INTERESTING"
      by (auto dest: reach_interesting)
    from b have sw: "shrink_sweep e t = Some (Raise x t')"
      by (cases rule: then_do_SomeE) auto
    from shrink_sweep_follows[OF sw _ int, of s0] I
    show "raised e s0 x t'" by simp
  qed
  then show ?thesis by (cases r) simp_all
qed


lemma pick_intervals_no_raise: "pick_intervals e data pos \<noteq> Some (Raise x pos')"
proof
  assume a: "pick_intervals e data pos = Some (Raise x pos')"
  show False
    using while_loop_rule[OF a[unfolded pick_intervals_def],
            where I = "\<lambda>_ _. True" and Q = "\<lambda>_ _. False"]
    by (auto simp: Let_def split: prod.splits)
qed

lemma mutate_raises_ValueError:
  "mutate_data_to_new_buffer e data pos = Some (Raise x pos') \<Longrightarrow> x = ValueError"
  using pick_intervals_no_raise[of e data]
  by (auto simp: mutate_data_to_new_buffer_def Let_def
           split: if_splits prod.splits option.splits res.splits)

lemma generation_loop_reach:
  assumes "generation_loop e s = Some r" and "reach e s0 s"
  shows "case r of
           Ret v s' \<Rightarrow> reach e s0 s' \<and>
                       (if snd (snd v) then status (last_data s') \<noteq> INTERESTING
                        else status (last_data s') = INTERESTING)
         | Raise x s' \<Rightarrow> raised e s0 x s' \<or> (x = ValueError \<and> reach e s0 s')"
proof -
  let ?I = "\<lambda>(v :: int \<times> int \<times> bool) t.
              reach e s0 t \<and> (snd (snd v) \<longrightarrow> status (last_data t) \<noteq> INTERESTING)"
  let ?Q = "\<lambda>x t. raised e s0 x t \<or> (x = ValueError \<and> reach e s0 t)"
  have "case r of
          Ret v' s' \<Rightarrow> ?I v' s' \<and>
            \<not> (case v' of (mutations_done, generation, returned) \<Rightarrow>
                  \<lambda>s. \<not> returned \<and> status (last_data s) \<noteq> INTERESTING) s'
        | Raise x s' \<Rightarrow> ?Q x s'"
    using assms(1)[unfolded generation_loop_def]
  proof (rule while_loop_rule[where I = ?I and Q = ?Q])
    show "?I (0, 0, False) s" using assms(2) by simp
  next
    fix v t v' t'
    assume I: "?I v t"
      and c: "(case v of (mutations_done, generation, returned) \<Rightarrow>
                \<lambda>s. \<not> returned \<and> status (last_data s) \<noteq> INTERESTING) t"
      and b: "(case v of (mutations_done, generation, returned) \<Rightarrow> \<lambda>s.
          if mutations_done \<ge> mutations (settings e) then
            (let generation = generation + 1 in
             if generation \<ge> generations (settings e)
             then Some (Ret (mutations_done, generation, True) s)
             else
               (case mutate_data_to_new_buffer e (last_data s) (rpos s) of
                  None \<Rightarrow> None
                | Some (Raise x pos) \<Rightarrow> Some (Raise x (s\<lparr>rpos := pos\<rparr>))
                | Some (Ret buf pos) \<Rightarrow>
                    (case incorporate_new_buffer e (s\<lparr>rpos := pos\<rparr>) buf of
                       Raise x s' \<Rightarrow> Some (Raise x s')
                     | Ret b s' \<Rightarrow> Some (Ret (0 + 1, generation, False) s'))))
          else Some (Ret (mutations_done + 1, generation, False) (new_buffer e s))) t
        = Some (Ret v' t')"
    obtain m g ret where v: "v = (m, g, ret)" by (cases v)
    from I c v have r: "reach e s0 t" and ni: "status (last_data t) \<noteq> INTERESTING" by auto
    have step: "\<And>pos buf x u. incorporate_new_buffer e (t\<lparr>rpos := pos\<rparr>) buf = Ret x u
                  \<Longrightarrow> reach e s0 u"
      using ni by (auto intro: reach_step[OF reach_draw[OF r]])
    from b v r ni step show "?I v' t'"
      by (auto simp: Let_def split: if_splits option.splits res.splits intro: reach_fresh)
  next
    fix v t x t'
    assume I: "?I v t"
      and c: "(case v of (mutations_done, generation, returned) \<Rightarrow>
                \<lambda>s. \<not> returned \<and> status (last_data s) \<noteq> INTERESTING) t"
      and b: "(case v of (mutations_done, generation, returned) \<Rightarrow> \<lambda>s.
          if mutations_done \<ge> mutations (settings e) then
            (let generation = generation + 1 in
             if generation \<ge> generations (settings e)
             then Some (Ret (mutations_done, generation, True) s)
             else
               (case mutate_data_to_new_buffer e (last_data s) (rpos s) of
                  None \<Rightarrow> None
                | Some (Raise x pos) \<Rightarrow> Some (Raise x (s\<lparr>rpos := pos\<rparr>))
                | Some (Ret buf pos) \<Rightarrow>
                    (case incorporate_new_buffer e (s\<lparr>rpos := pos\<rparr>) buf of
                       Raise x s' \<Rightarrow> Some (Raise x s')
                     | Ret b s' \<Rightarrow> Some (Ret (0 + 1, generation, False) s'))))
          else Some (Ret (mutations_done + 1, generation, False) (new_buffer e s))) t
        = Some (Raise x t')"
    obtain m g ret where v: "v = (m, g, ret)" by (cases v)
    from I c v have r: "reach e s0 t" and ni: "status (last_data t) \<noteq> INTERESTING" by auto
    have step: "\<And>pos buf x u. incorporate_new_buffer e (t\<lparr>rpos := pos\<rparr>) buf = Raise x u
                  \<Longrightarrow> raised e s0 x u"
      unfolding raised_def using ni reach_draw[OF r] by fastforce
    from b v r ni step show "?Q x t'"
      by (auto simp: Let_def split: if_splits option.splits res.splits
               dest: mutate_raises_ValueError intro: reach_draw)
  qed
  then show ?thesis by (cases r) (auto split: prod.splits)
qed

lemma run_impl_reach:
  assumes "run_impl e = Some r"
  shows "case r of
           Ret v s \<Rightarrow> reach e (new_buffer e (TestRunner_init e)) s
         | Raise x s \<Rightarrow> raised e (new_buffer e (TestRunner_init e)) x s \<or>
                        (x = ValueError \<and> reach e (new_buffer e (TestRunner_init e)) s)"
proof -
  let ?i = "new_buffer e (TestRunner_init e)"
  note g = generation_loop_reach[OF _ reach_refl, of e ?i]
  from assms[unfolded run_impl_def] show ?thesis
  proof (cases rule: then_do_SomeE)
    case (raise x s)
    with g[of "Raise x s"] show ?thesis by simp
  next
    case (ret v s)
    obtain m g' returned where v: "v = (m, g', returned)" by (cases v)
    from g[of "Ret v s"] ret v have r: "reach e ?i s"
      and st: "\<not> returned \<Longrightarrow> status (last_data s) = INTERESTING"
      by auto
    show ?thesis
    proof (cases returned)
      case True
      with ret v r show ?thesis by auto
    next
      case False
      with ret(2) v have "then_do (shrink_loop e s) (\<lambda>_ s'. Some (Ret () s')) = Some r" by simp
      then show ?thesis
      proof (cases rule: then_do_SomeE)
        case (ret v' s')
        with shrink_loop_follows[OF _ r st[OF False]] show ?thesis by auto
      next
        case (raise x s')
        with shrink_loop_follows[OF _ r st[OF False]] show ?thesis by auto
      qed
    qed
  qed
qed


lemma consider_Inl:
  assumes "consider_new_test_data p d = Inl x"
  shows "x = AssertionError" "status p = INTERESTING" "status d = INTERESTING"
    "length (buffer p) < length (buffer d)"
  using assms
  by (cases "status d"; cases "status p";
      auto simp: consider_new_test_data_def less_status_def split: if_splits)+

lemma incorporate_Raise:
  assumes "incorporate_new_buffer e s b = Raise x s'"
  shows "(x = StopShrinking \<and> last_data s' = execute e b \<and>
          consider_new_test_data (last_data s) (execute e b) = Inr True \<and>
          log s' = Accepted (execute e b) # log s \<and>
          changed s' = changed s + 1 \<and>
          shrinks s' = (if status (last_data s) = INTERESTING then shrinks s + 1 else shrinks s) \<and>
          shrinks s' \<ge> max_shrinks (settings e)) \<or>
         (x = AssertionError \<and> last_data s' = last_data s \<and>
          consider_new_test_data (last_data s) (execute e b) = Inl AssertionError \<and>
          log s' = Failed (execute e b) # log s \<and>
          changed s' = changed s \<and> shrinks s' = shrinks s)"
  using assms consider_Inl(1)[of "last_data s" "execute e b"]
  by (auto simp: incorporate_new_buffer_def Let_def update_fill_size_def
           split: if_splits sum.splits bool.splits)

lemma incorporate_False_log:
  assumes "incorporate_new_buffer e s b = Ret False s'"
  shows "log s' = log s \<or>
         (log s' = Rejected (execute e b) # log s \<and>
          consider_new_test_data (last_data s) (execute e b) = Inr False)"
  using assms
  by (auto simp: incorporate_new_buffer_def Let_def update_fill_size_def
           split: if_splits sum.splits bool.splits)

text \<open>What one call of \<^verbatim>\<open>incorporate_new_buffer\<close> does to the log and to \<^verbatim>\<open>last_data\<close>.\<close>

lemma incorporate_log_cases:
  assumes "incorporate_new_buffer e s b = r"
  obtains
    (same) "log (state_of r) = log s" "last_data (state_of r) = last_data s"
      "shrinks (state_of r) = shrinks s"
  | (rejected) "log (state_of r) = Rejected (execute e b) # log s"
      "last_data (state_of r) = last_data s"
      "consider_new_test_data (last_data s) (execute e b) = Inr False"
      "shrinks (state_of r) = shrinks s"
  | (failed) "log (state_of r) = Failed (execute e b) # log s"
      "last_data (state_of r) = last_data s"
      "consider_new_test_data (last_data s) (execute e b) = Inl AssertionError"
      "shrinks (state_of r) = shrinks s" "r = Raise AssertionError (state_of r)"
  | (accepted) "log (state_of r) = Accepted (execute e b) # log s"
      "last_data (state_of r) = execute e b"
      "consider_new_test_data (last_data s) (execute e b) = Inr True"
      "shrinks (state_of r) =
         (if status (last_data s) = INTERESTING then shrinks s + 1 else shrinks s)"
proof (cases r)
  case (Ret x s')
  show ?thesis
  proof (cases x)
    case True
    with Ret assms incorporate_True[of e s b s'] show ?thesis by (intro accepted) simp_all
  next
    case False
    with Ret assms incorporate_False[of e s b s'] incorporate_False_log[of e s b s']
    show ?thesis by (auto intro: same rejected)
  qed
next
  case (Raise x s')
  with assms incorporate_Raise[of e s b x s'] show ?thesis
    by (auto intro: failed accepted)
qed

lemma new_buffer_fields [simp]:
  "log (new_buffer e s) = NewBuffer (last_data (new_buffer e s)) # log s"
  "shrinks (new_buffer e s) = shrinks s"
  "changed (new_buffer e s) = changed s"
  by (simp_all add: new_buffer_def Let_def update_fill_size_def)

lemma new_buffer_last_data:
  "\<exists>b. last_data (new_buffer e s) = execute e b"
  by (auto simp: new_buffer_def Let_def update_fill_size_def)


lemma logged_current:
  "logged e evs \<Longrightarrow> \<exists>b. current_of evs = Some (execute e b)"
  by (induction rule: logged.induct) auto

lemma incorporate_logged:
  assumes "incorporate_new_buffer e s b = r"
    and "logged e (log s)" and "current_of (log s) = Some (last_data s)"
    and "status (last_data s) = INTERESTING \<Longrightarrow> candidate s b"
  shows "logged e (log (state_of r)) \<and>
         current_of (log (state_of r)) = Some (last_data (state_of r))"
  using assms(1)
proof (cases rule: incorporate_log_cases)
  case same
  with assms show ?thesis by simp
next
  case rejected
  with assms logged_rejected[OF assms(2,3), of b] show ?thesis by (simp add: candidate_def)
next
  case failed
  with assms logged_failed[OF assms(2,3), of b] show ?thesis by (simp add: candidate_def)
next
  case accepted
  with assms logged_accepted[OF assms(2,3), of b] show ?thesis by (simp add: candidate_def)
qed

lemma new_buffer_logged:
  assumes "logged e (log s)" and "current_of (log s) = Some (last_data s)"
    and "status (last_data s) \<noteq> INTERESTING"
  shows "logged e (log (new_buffer e s)) \<and>
         current_of (log (new_buffer e s)) = Some (last_data (new_buffer e s))"
proof -
  obtain b where "last_data (new_buffer e s) = execute e b"
    using new_buffer_last_data by blast
  with logged_fresh[OF assms, of b] show ?thesis by simp
qed

lemma init_logged:
  "logged e (log (new_buffer e (TestRunner_init e))) \<and>
   current_of (log (new_buffer e (TestRunner_init e))) =
     Some (last_data (new_buffer e (TestRunner_init e)))"
proof -
  obtain b where "last_data (new_buffer e (TestRunner_init e)) = execute e b"
    using new_buffer_last_data by blast
  with logged_init[of e b] show ?thesis by (simp add: TestRunner_init_def)
qed

lemma reach_logged:
  assumes "reach e s0 s" and "logged e (log s0)" and "current_of (log s0) = Some (last_data s0)"
  shows "logged e (log s) \<and> current_of (log s) = Some (last_data s)"
  using assms
proof (induction rule: reach.induct)
  case reach_refl
  then show ?case by simp
next
  case (reach_fresh s)
  with new_buffer_logged[of e s] show ?case by simp
next
  case (reach_step s b x s')
  from incorporate_logged[OF reach_step(3), of ] reach_step show ?case by simp
next
  case (reach_draw s n)
  then show ?case by simp
qed

lemma raised_logged:
  assumes "raised e s0 x s'" and "logged e (log s0)"
    and "current_of (log s0) = Some (last_data s0)"
  shows "logged e (log s') \<and> current_of (log s') = Some (last_data s')"
proof -
  from assms(1) obtain s b where r: "reach e s0 s"
    and c: "status (last_data s) = INTERESTING \<longrightarrow> candidate s b"
    and i: "incorporate_new_buffer e s b = Raise x s'"
    unfolding raised_def by blast
  from reach_logged[OF r assms(2,3)] incorporate_logged[OF i] c show ?thesis by simp
qed

lemma run_impl_logged:
  assumes "run_impl e = Some r"
  shows "logged e (log (state_of r)) \<and>
         current_of (log (state_of r)) = Some (last_data (state_of r))"
  using run_impl_reach[OF assms] init_logged[of e]
  by (cases r) (auto dest: reach_logged raised_logged)

lemma run_run_impl:
  assumes "run e = Some r"
  obtains r' where "run_impl e = Some r'" "state_of r' = state_of r"
    "r = (case r' of Raise x s \<Rightarrow> if x = StopShrinking then Ret () s else Raise x s
          | Ret u s \<Rightarrow> Ret () s)"
  using assms by (auto simp: run_def split: option.splits res.splits if_splits)

lemma run_logged:
  assumes "run e = Some r"
  shows "logged e (log (state_of r))"
    "current_of (log (state_of r)) = Some (last_data (state_of r))"
proof -
  from assms obtain r' where r': "run_impl e = Some r'" "state_of r' = state_of r"
    by (rule run_run_impl)
  from run_impl_logged[OF r'(1)] r'(2)
  show "logged e (log (state_of r))"
    "current_of (log (state_of r)) = Some (last_data (state_of r))"
    by simp_all
qed

lemma logged_acceptor_obeyed: "logged e evs \<Longrightarrow> acceptor_obeyed evs"
  by (induction rule: logged.induct) (auto dest: consider_True_status)

lemma logged_key_decreases: "logged e evs \<Longrightarrow> key_decreases evs"
  by (induction rule: logged.induct) (auto dest: consider_True_interesting)


lemma pair_indices_short: "length buf \<le> 1 \<Longrightarrow> pair_indices buf = []"
proof -
  assume a: "length buf \<le> 1"
  have short: "\<not> 1 < length bucket" if "bucket \<in> set (buckets buf)" for bucket
  proof -
    from that obtain c where "bucket = filter (\<lambda>i. unat (buf ! i) = c) [0..<length buf]"
      by (auto simp: buckets_def)
    with a length_filter_le[of "\<lambda>i. unat (buf ! i) = c" "[0..<length buf]"]
    show ?thesis by simp
  qed
  show ?thesis
    unfolding pair_indices_def concat_eq_Nil_conv
    using short by auto
qed

lemmas run_eval =
  run_def run_impl_def generation_loop_def shrink_loop_def shrink_sweep_def then_do_def
  new_buffer_def TestRunner_init_def update_fill_size_def execute_def urandom_def
  incorporate_new_buffer_def consider_new_test_data_def interest_key_def
  delete_intervals_pass_def delete_intervals_round_def delete_intervals_loop_def
  delete_intervals_body_def sort_intervals_pass_def sort_intervals_body_def
  zero_window_pass_def single_byte_pass_def single_byte_body_def adjacent_swap_pass_def
  adjacent_swap_body_def borrow_pass_def borrow_body_def
  equal_pairs_pass_def order_pairs_pass_def pair_indices_short while_loop.simps
  less_status_def less_eq_status_def slice_def Let_def

lemma run_impl_tiny_env:
  "run_impl tiny_env =
     Some (Ret ()
       \<lparr>changed = 1, shrinks = 1, fill_size = 1, rpos = 1,
        log = [Accepted (always_interesting []), NewBuffer (always_interesting [0])],
        last_data = always_interesting []\<rparr>)"
  by (simp add: tiny_env_def always_interesting_def run_eval)

lemma run_impl_no_budget_env:
  "run_impl no_budget_env =
     Some (Raise StopShrinking
       \<lparr>changed = 1, shrinks = 1, fill_size = 1, rpos = 1,
        log = [Accepted (always_interesting []), NewBuffer (always_interesting [0])],
        last_data = always_interesting []\<rparr>)"
  by (simp add: no_budget_env_def always_interesting_def run_eval)

lemma run_impl_dull_env:
  "run_impl dull_env =
     Some (Ret ()
       \<lparr>changed = 0, shrinks = 0, fill_size = 1, rpos = 2,
        log = [NewBuffer (valid_on_zero [1]), NewBuffer (valid_on_zero [0])],
        last_data = valid_on_zero [1]\<rparr>)"
  by (simp add: dull_env_def valid_on_zero_def run_eval)


lemma run_impl_budget_one_env:
  "run_impl budget_one_env =
     Some (Raise StopShrinking
       \<lparr>changed = 1, shrinks = 1, fill_size = 1, rpos = 1,
        log = [Accepted (always_interesting []), NewBuffer (always_interesting [0])],
        last_data = always_interesting []\<rparr>)"
  by (simp add: budget_one_env_def always_interesting_def run_eval)

lemma run_impl_span_env:
  "run_impl span_env =
     Some (Ret ()
       \<lparr>changed = 1, shrinks = 1, fill_size = 1, rpos = 1,
        log = [Accepted (one_span []), NewBuffer (one_span [0])],
        last_data = one_span []\<rparr>)"
  by (simp add: span_env_def one_span_def run_eval)

text \<open>The counter \<^verbatim>\<open>shrinks\<close> counts the accepted transitions of the shrink phase.\<close>

lemma incorporate_shrink_count:
  assumes "incorporate_new_buffer e s b = r"
    and "current_of (log s) = Some (last_data s)"
    and "int (shrink_count (log s)) = shrinks s"
  shows "int (shrink_count (log (state_of r))) = shrinks (state_of r)"
  using assms(1)
  by (cases rule: incorporate_log_cases) (use assms in auto)

lemma reach_shrink_count:
  assumes "reach e s0 s" and "logged e (log s0)" and "current_of (log s0) = Some (last_data s0)"
    and "int (shrink_count (log s0)) = shrinks s0"
    and "shrinks s0 = 0 \<or> shrinks s0 < max_shrinks (settings e)"
  shows "int (shrink_count (log s)) = shrinks s \<and>
         (shrinks s = 0 \<or> shrinks s < max_shrinks (settings e))"
  using assms
proof (induction rule: reach.induct)
  case reach_refl
  then show ?case by simp
next
  case (reach_fresh s)
  with reach_logged[OF reach_fresh(1)] show ?case by (auto split: option.splits)
next
  case (reach_step s b x s')
  from reach_step reach_logged[OF reach_step(1)]
  have c: "current_of (log s) = Some (last_data s)"
    and n: "int (shrink_count (log s)) = shrinks s"
    and b: "shrinks s = 0 \<or> shrinks s < max_shrinks (settings e)"
    by auto
  from incorporate_shrink_count[OF reach_step(3) c n]
  have 1: "int (shrink_count (log s')) = shrinks s'" by simp
  have 2: "shrinks s' = 0 \<or> shrinks s' < max_shrinks (settings e)"
  proof (cases x)
    case True
    with reach_step(3) incorporate_True(6)[of e s b s'] show ?thesis by simp
  next
    case False
    with reach_step(3) incorporate_False(2)[of e s b s'] b show ?thesis by simp
  qed
  from 1 2 show ?case by simp
next
  case (reach_draw s n)
  then show ?case by simp
qed

lemma run_impl_shrink_count:
  assumes "run_impl e = Some r"
  shows "int (shrink_count (log (state_of r))) = shrinks (state_of r)"
    and "shrinks (state_of r) \<le> max 1 (max_shrinks (settings e))"
    and "\<And>s. r = Raise StopShrinking s \<Longrightarrow>
           max_shrinks (settings e) \<le> shrinks s \<and> hd (log s) = Accepted (last_data s)"
    and "\<And>v s. r = Ret v s \<Longrightarrow> shrinks s = 0 \<or> shrinks s < max_shrinks (settings e)"
proof -
  let ?i = "new_buffer e (TestRunner_init e)"
  have i: "logged e (log ?i)" "current_of (log ?i) = Some (last_data ?i)"
    "int (shrink_count (log ?i)) = shrinks ?i"
    "shrinks ?i = 0 \<or> shrinks ?i < max_shrinks (settings e)"
    using init_logged[of e] by (simp_all add: TestRunner_init_def)
  note R = reach_shrink_count[OF _ i] reach_logged[OF _ i(1,2)]
  have main: "int (shrink_count (log (state_of r))) = shrinks (state_of r) \<and>
        shrinks (state_of r) \<le> max 1 (max_shrinks (settings e)) \<and>
        (\<forall>s. r = Raise StopShrinking s \<longrightarrow>
           max_shrinks (settings e) \<le> shrinks s \<and> hd (log s) = Accepted (last_data s)) \<and>
        (\<forall>v s. r = Ret v s \<longrightarrow> shrinks s = 0 \<or> shrinks s < max_shrinks (settings e))"
  proof (cases r)
    case (Ret v s)
    with run_impl_reach[OF assms] R[of s] show ?thesis by auto
  next
    case (Raise x s')
    with run_impl_reach[OF assms]
    consider (inc) "raised e ?i x s'" | (val) "x = ValueError" "reach e ?i s'" by auto
    then show ?thesis
    proof cases
      case val
      with Raise R[of s'] show ?thesis by auto
    next
      case inc
      then obtain s b where r: "reach e ?i s" and inc: "incorporate_new_buffer e s b = Raise x s'"
        unfolding raised_def by blast
      from R[OF r] have c: "current_of (log s) = Some (last_data s)"
        and n: "int (shrink_count (log s)) = shrinks s"
        and b: "shrinks s = 0 \<or> shrinks s < max_shrinks (settings e)"
        by auto
      from incorporate_shrink_count[OF inc c n]
      have 1: "int (shrink_count (log s')) = shrinks s'" by simp
      from incorporate_Raise[OF inc] b
      have 2: "shrinks s' \<le> max 1 (max_shrinks (settings e))"
        and 3: "x = StopShrinking \<Longrightarrow>
                max_shrinks (settings e) \<le> shrinks s' \<and> hd (log s') = Accepted (last_data s')"
        by (auto split: if_splits)
      from 1 2 3 Raise show ?thesis by auto
    qed
  qed
  from main show "int (shrink_count (log (state_of r))) = shrinks (state_of r)"
    and "shrinks (state_of r) \<le> max 1 (max_shrinks (settings e))"
    and "\<And>s. r = Raise StopShrinking s \<Longrightarrow>
           max_shrinks (settings e) \<le> shrinks s \<and> hd (log s) = Accepted (last_data s)"
    and "\<And>v s. r = Ret v s \<Longrightarrow> shrinks s = 0 \<or> shrinks s < max_shrinks (settings e)"
    by auto
qed

text \<open>Candidates of the shrink passes are no longer than the buffer they come from.\<close>

lemma shrink_candidate_length:
  assumes "shrink_candidate d b" and "\<forall>(u, v) \<in> set (intervals d). u \<le> v"
  shows "length b \<le> length (buffer d)"
  using assms by (auto simp: shrink_candidate_def Let_def slice_def)

lemma intervals_execute [simp]: "intervals (execute e b) = intervals (test_function e b)"
  by (simp add: execute_def)

lemma integrity_execute:
  "interval_integrity e \<Longrightarrow> \<forall>(u, v) \<in> set (intervals (execute e b)). u \<le> v"
  by (simp add: interval_integrity_def)

lemma logged_current_integrity:
  assumes "logged e evs" and "current_of evs = Some p" and "interval_integrity e"
  shows "\<forall>(u, v) \<in> set (intervals p). u \<le> v"
proof -
  from logged_current[OF assms(1)] assms(2) obtain b where "p = execute e b" by auto
  with integrity_execute[OF assms(3), of b] show ?thesis by simp
qed

lemma logged_never_longer:
  assumes "logged e evs" and "interval_integrity e"
  shows "never_longer evs"
  using assms(1)
proof (induction rule: logged.induct)
  case (logged_init b)
  then show ?case by simp
next
  case (logged_fresh evs p b)
  then show ?case by simp
next
  case (logged_accepted evs p b)
  from logged_current_integrity[OF logged_accepted(1,2) assms(2)]
  have "\<forall>(u, v) \<in> set (intervals p). u \<le> v" .
  with logged_accepted shrink_candidate_length[of p b] show ?case by auto
next
  case (logged_rejected evs p b)
  from logged_current_integrity[OF logged_rejected(1,2) assms(2)]
  have "\<forall>(u, v) \<in> set (intervals p). u \<le> v" .
  with logged_rejected shrink_candidate_length[of p b] show ?case by auto
next
  case (logged_failed evs p b)
  from logged_current_integrity[OF logged_failed(1,2) assms(2)]
  have "\<forall>(u, v) \<in> set (intervals p). u \<le> v" .
  with logged_failed shrink_candidate_length[of p b]
    consider_Inl(2,4)[OF logged_failed(4)]
  show ?case by auto
qed


lemma run_of_run_impl:
  "run_impl e = Some (Ret v s) \<Longrightarrow> run e = Some (Ret () s)"
  "run_impl e = Some (Raise StopShrinking s) \<Longrightarrow> run e = Some (Ret () s)"
  by (simp_all add: run_def)

section \<open>Properties of a run\<close>

text \<open>
  Claim C1, as the code has it. Every buffer handed to \<^verbatim>\<open>incorporate_new_buffer\<close> that is
  executed (a mutated buffer of the generation phase, a candidate of a shrink pass) is put
  to the acceptor: it becomes \<^verbatim>\<open>last_data\<close> only with the acceptor's consent, and then its
  status is at least the status of the record it replaces. \<^verbatim>\<open>last_data\<close> is always the
  record of the newest fresh or accepted buffer. Fresh random buffers are installed by
  \<^verbatim>\<open>new_buffer\<close> without the acceptor, so nothing is said of their status.
\<close>

theorem incorporated_candidates_obey_acceptor:
  "run e = Some r \<Longrightarrow>
   acceptor_obeyed (log (state_of r)) \<and>
   current_of (log (state_of r)) = Some (last_data (state_of r))"
  using run_logged[of e r] by (simp add: logged_acceptor_obeyed)

theorem incorporated_candidates_obey_acceptor_witness:
  "run tiny_env =
     Some (Ret ()
       \<lparr>changed = 1, shrinks = 1, fill_size = 1, rpos = 1,
        log = [Accepted (always_interesting []), NewBuffer (always_interesting [0])],
        last_data = always_interesting []\<rparr>) \<and>
   acceptor_obeyed [Accepted (always_interesting []), NewBuffer (always_interesting [0])] \<and>
   current_of [Accepted (always_interesting []), NewBuffer (always_interesting [0])] =
     Some (always_interesting [])"
  using incorporated_candidates_obey_acceptor[OF run_of_run_impl(1)[OF run_impl_tiny_env]]
    run_of_run_impl(1)[OF run_impl_tiny_env]
  by simp

text \<open>
  Claim C1 as stated fails: in this run the second fresh random buffer replaces a
  \<^verbatim>\<open>VALID\<close> record by an \<^verbatim>\<open>INVALID\<close> one, which the acceptor would have refused.
\<close>

theorem fresh_buffer_lowers_status:
  "run dull_env =
     Some (Ret ()
       \<lparr>changed = 0, shrinks = 0, fill_size = 1, rpos = 2,
        log = [NewBuffer (valid_on_zero [1]), NewBuffer (valid_on_zero [0])],
        last_data = valid_on_zero [1]\<rparr>) \<and>
   status_history [NewBuffer (valid_on_zero [1]), NewBuffer (valid_on_zero [0])]
     = [VALID, INVALID] \<and>
   INVALID < VALID \<and>
   consider_new_test_data (valid_on_zero [0]) (valid_on_zero [1]) = Inr False"
  using run_of_run_impl(1)[OF run_impl_dull_env]
  by (simp add: status_history_def valid_on_zero_def
        consider_new_test_data_def less_status_def)

text \<open>
  Claim C5. Once an interesting record is \<^verbatim>\<open>last_data\<close>, every record installed after it
  is an accepted interesting candidate whose interest key (cost, number of intervals,
  buffer length, buffer bytes; lexicographic) is strictly smaller than the key of the
  record it replaces.
\<close>

theorem interest_key_strictly_decreases:
  "run e = Some r \<Longrightarrow> key_decreases (log (state_of r))"
  using run_logged(1)[of e r] by (simp add: logged_key_decreases)

theorem interest_key_strictly_decreases_witness:
  "run span_env =
     Some (Ret ()
       \<lparr>changed = 1, shrinks = 1, fill_size = 1, rpos = 1,
        log = [Accepted (one_span []), NewBuffer (one_span [0])],
        last_data = one_span []\<rparr>) \<and>
   key_decreases [Accepted (one_span []), NewBuffer (one_span [0])] \<and>
   interest_key (one_span []) < interest_key (one_span [0])"
  using interest_key_strictly_decreases[OF run_of_run_impl(1)[OF run_impl_span_env]]
    run_of_run_impl(1)[OF run_impl_span_env]
  by (simp add: one_span_def interest_key_def)

text \<open>
  Claim C3, as the code has it. The number of accepted replacements of an interesting
  \<^verbatim>\<open>last_data\<close> never exceeds \<^verbatim>\<open>max_shrinks\<close>, or one when \<^verbatim>\<open>max_shrinks\<close> is below one
  (the budget is checked only after a replacement). A run that returns normally has not
  used up a positive budget. When \<^verbatim>\<open>StopShrinking\<close> leaves \<^verbatim>\<open>_run\<close> the count has reached
  \<^verbatim>\<open>max_shrinks\<close>, \<^verbatim>\<open>last_data\<close> is the candidate accepted last, \<^verbatim>\<open>run\<close> catches the
  exception and \<^verbatim>\<open>find_interesting_buffer\<close> answers from that \<^verbatim>\<open>last_data\<close>.
\<close>

theorem shrink_budget_respected:
  "run_impl e = Some r \<Longrightarrow>
   int (shrink_count (log (state_of r))) \<le> max 1 (max_shrinks (settings e)) \<and>
   (\<forall>v s. r = Ret v s \<longrightarrow>
      shrink_count (log s) = 0 \<or> int (shrink_count (log s)) < max_shrinks (settings e)) \<and>
   (\<forall>s. r = Raise StopShrinking s \<longrightarrow>
      max_shrinks (settings e) \<le> int (shrink_count (log s)) \<and>
      hd (log s) = Accepted (last_data s) \<and>
      run e = Some (Ret () s) \<and>
      find_interesting_buffer e =
        Some (Ret (if status (last_data s) = INTERESTING
                   then Some (buffer (last_data s)) else None) s))"
proof -
  assume a: "run_impl e = Some r"
  note sc = run_impl_shrink_count[OF a]
  have 1: "int (shrink_count (log (state_of r))) \<le> max 1 (max_shrinks (settings e))"
    using sc(1,2) by simp
  have 2: "shrink_count (log s) = 0 \<or> int (shrink_count (log s)) < max_shrinks (settings e)"
    if "r = Ret v s" for v s
    using sc(1) sc(4)[OF that] that by auto
  have 3: "max_shrinks (settings e) \<le> int (shrink_count (log s)) \<and>
      hd (log s) = Accepted (last_data s) \<and>
      run e = Some (Ret () s) \<and>
      find_interesting_buffer e =
        Some (Ret (if status (last_data s) = INTERESTING
                   then Some (buffer (last_data s)) else None) s)"
    if "r = Raise StopShrinking s" for s
    using sc(1) sc(3)[OF that] that a
    by (auto simp: run_def find_interesting_buffer_def then_do_def)
  from 1 2 3 show ?thesis by blast
qed

theorem shrink_budget_respected_witness:
  "run_impl budget_one_env =
     Some (Raise StopShrinking
       \<lparr>changed = 1, shrinks = 1, fill_size = 1, rpos = 1,
        log = [Accepted (always_interesting []), NewBuffer (always_interesting [0])],
        last_data = always_interesting []\<rparr>) \<and>
   shrink_count [Accepted (always_interesting []), NewBuffer (always_interesting [0])] = 1 \<and>
   max_shrinks (settings budget_one_env) = 1 \<and>
   find_interesting_buffer budget_one_env =
     Some (Ret (Some [])
       \<lparr>changed = 1, shrinks = 1, fill_size = 1, rpos = 1,
        log = [Accepted (always_interesting []), NewBuffer (always_interesting [0])],
        last_data = always_interesting []\<rparr>)"
  using shrink_budget_respected[OF run_impl_budget_one_env] run_impl_budget_one_env
  by (simp add: budget_one_env_def always_interesting_def)

text \<open>
  Claim C3 as stated fails for a budget of zero: the first deletion is accepted before the
  budget is looked at, so one shrink happens although \<^verbatim>\<open>max_shrinks\<close> is zero.
\<close>

theorem budget_zero_still_shrinks:
  "run_impl no_budget_env =
     Some (Raise StopShrinking
       \<lparr>changed = 1, shrinks = 1, fill_size = 1, rpos = 1,
        log = [Accepted (always_interesting []), NewBuffer (always_interesting [0])],
        last_data = always_interesting []\<rparr>) \<and>
   shrink_count [Accepted (always_interesting []), NewBuffer (always_interesting [0])] = 1 \<and>
   max_shrinks (settings no_budget_env) = 0"
  using run_impl_no_budget_env
  by (simp add: no_budget_env_def always_interesting_def)

text \<open>
  Claim C4. When the callback records well-formed intervals (\<open>start \<le> end\<close>, the interval
  integrity the specification demands of \<^verbatim>\<open>TestData\<close>), every candidate executed while
  \<^verbatim>\<open>last_data\<close> is interesting is no longer than the current buffer, no execution ends
  in the failed assertion of the acceptor, and no \<^verbatim>\<open>AssertionError\<close> leaves the run.
\<close>

theorem acceptor_assertion_never_fails:
  assumes "interval_integrity e" and "run e = Some r"
  shows "never_longer (log (state_of r)) \<and> (\<forall>s. r \<noteq> Raise AssertionError s)"
proof -
  from run_logged(1)[OF assms(2)] assms(1)
  have nl: "never_longer (log (state_of r))" by (rule logged_never_longer)
  have "r \<noteq> Raise AssertionError s" for s
  proof
    assume r: "r = Raise AssertionError s"
    from assms(2) obtain r' where r': "run_impl e = Some r'"
      and eq: "r = (case r' of Raise x s \<Rightarrow> if x = StopShrinking then Ret () s else Raise x s
                    | Ret u s \<Rightarrow> Ret () s)"
      by (rule run_run_impl)
    from r eq have "r' = Raise AssertionError s"
      by (cases r') (auto split: if_splits)
    with run_impl_reach[OF r']
    have "raised e (new_buffer e (TestRunner_init e)) AssertionError s" by simp
    then obtain t b where "incorporate_new_buffer e t b = Raise AssertionError s"
      unfolding raised_def by blast
    from incorporate_Raise[OF this] have "\<exists>d evs. log s = Failed d # evs" by simp
    with nl r show False by auto
  qed
  with nl show ?thesis by simp
qed

lemma interval_integrity_span_env: "interval_integrity span_env"
  by (simp add: interval_integrity_def span_env_def one_span_def)

theorem acceptor_assertion_never_fails_witness:
  "interval_integrity span_env \<and>
   run span_env =
     Some (Ret ()
       \<lparr>changed = 1, shrinks = 1, fill_size = 1, rpos = 1,
        log = [Accepted (one_span []), NewBuffer (one_span [0])],
        last_data = one_span []\<rparr>) \<and>
   never_longer [Accepted (one_span []), NewBuffer (one_span [0])]"
  using acceptor_assertion_never_fails[OF interval_integrity_span_env
          run_of_run_impl(1)[OF run_impl_span_env]]
    interval_integrity_span_env run_of_run_impl(1)[OF run_impl_span_env]
  by simp


section \<open>Termination of the shrink phase\<close>

text \<open>
  What a stretch of the shrink phase does to the runner: either nothing that matters
  (every candidate was turned down), or at least one candidate was accepted, and then the
  budget is not yet used up.
\<close>

lemma reach_progress:
  assumes "reach e s t" and "status (last_data s) = INTERESTING"
  shows "status (last_data t) = INTERESTING \<and>
         ((last_data t = last_data s \<and> shrinks t = shrinks s \<and> changed t = changed s) \<or>
          (shrinks s < shrinks t \<and> shrinks t < max_shrinks (settings e) \<and>
           changed s < changed t)) \<and>
         changed t - changed s = shrinks t - shrinks s"
  using assms
proof (induction rule: reach.induct)
  case reach_refl
  then show ?case by simp
next
  case (reach_fresh t)
  then show ?case by simp
next
  case (reach_step t b x u)
  then have IH: "status (last_data t) = INTERESTING"
    "(last_data t = last_data s \<and> shrinks t = shrinks s \<and> changed t = changed s) \<or>
     (shrinks s < shrinks t \<and> shrinks t < max_shrinks (settings e) \<and> changed s < changed t)"
    "changed t - changed s = shrinks t - shrinks s"
    by auto
  show ?case
  proof (cases x)
    case True
    with reach_step(3) incorporate_True[of e t b u] IH
      incorporate_interesting[OF reach_step(3) IH(1)]
    show ?thesis by auto
  next
    case False
    with reach_step(3) incorporate_False[of e t b u] IH show ?thesis by auto
  qed
next
  case (reach_draw t n)
  then show ?case by simp
qed

lemma while_index_terminates:
  fixes bound :: "testdata \<Rightarrow> nat" and b :: "nat \<Rightarrow> runner \<Rightarrow> bool"
  assumes int: "status (last_data s) = INTERESTING"
    and inb: "\<And>i t. b i t \<Longrightarrow> i < bound (last_data t)"
    and step: "\<And>i t i' t'. status (last_data t) = INTERESTING \<Longrightarrow> b i t \<Longrightarrow>
              c i t = Ret i' t' \<Longrightarrow>
              reach e t t' \<and> (i' = i + 1 \<or> i' = i \<and> shrinks t < shrinks t')"
  shows "\<exists>r. while_loop b (\<lambda>i t. Some (c i t)) i0 s = Some r"
proof (rule while_loop_terminates[where
      I = "\<lambda>(i :: nat) (t :: runner). status (last_data t) = INTERESTING" and
      R = "inv_image (less_than <*lex*> less_than)
             (\<lambda>(i :: nat, t :: runner). (shrink_measure e t, bound (last_data t) - i))"])
  show "wf (inv_image (less_than <*lex*> less_than)
             (\<lambda>(i, t). (shrink_measure e t, bound (last_data t) - i)))"
    by (intro wf_inv_image wf_lex_prod wf_less_than)
next
  show "status (last_data s) = INTERESTING" by (rule int)
next
  fix i :: nat and t :: runner
  assume I: "status (last_data t) = INTERESTING" and b: "b i t"
  have "status (last_data t') = INTERESTING \<and>
        ((i', t'), (i, t)) \<in> inv_image (less_than <*lex*> less_than)
             (\<lambda>(i, t). (shrink_measure e t, bound (last_data t) - i))"
    if r: "c i t = Ret i' t'" for i' t'
  proof -
    from step[OF I b r] have re: "reach e t t'"
      and ix: "i' = i + 1 \<or> i' = i \<and> shrinks t < shrinks t'" by auto
    from reach_progress[OF re I] have I': "status (last_data t') = INTERESTING"
      and pr: "(last_data t' = last_data t \<and> shrinks t' = shrinks t) \<or>
               (shrinks t < shrinks t' \<and> shrinks t' < max_shrinks (settings e))"
      by auto
    from pr ix inb[OF b] have "(shrink_measure e t' < shrink_measure e t) \<or>
        (shrink_measure e t' = shrink_measure e t \<and>
         bound (last_data t') - i' < bound (last_data t) - i)"
      by (auto simp: shrink_measure_def)
    with I' show ?thesis by auto
  qed
  then show "\<exists>r. Some (c i t) = Some r \<and>
         (\<forall>v' s'. r = Ret v' s' \<longrightarrow>
            status (last_data s') = INTERESTING \<and>
            ((v', s'), (i, t)) \<in> inv_image (less_than <*lex*> less_than)
               (\<lambda>(i, t). (shrink_measure e t, bound (last_data t) - i)))"
    by auto
qed

lemma delete_intervals_body_Ret:
  assumes "delete_intervals_body e i s = Ret i' s'" and "status (last_data s) = INTERESTING"
  shows "i' = i + 1 \<or> i' = i \<and> shrinks s < shrinks s'"
  using assms
  by (auto simp: delete_intervals_body_def Let_def split: prod.splits res.splits bool.splits
           dest: incorporate_True(5))

lemma sort_intervals_body_Ret: "sort_intervals_body e i s = Ret i' s' \<Longrightarrow> i' = i + 1"
  by (auto simp: sort_intervals_body_def Let_def split: prod.splits res.splits)

lemma single_byte_body_Ret: "single_byte_body e i s = Ret i' s' \<Longrightarrow> i' = i + 1"
  by (auto simp: single_byte_body_def Let_def split: res.splits bool.splits)

lemma adjacent_swap_body_Ret: "adjacent_swap_body e i s = Ret i' s' \<Longrightarrow> i' = i + 1"
  by (auto simp: adjacent_swap_body_def Let_def split: res.splits if_splits)

lemma borrow_body_Ret: "borrow_body e i s = Ret i' s' \<Longrightarrow> i' = i + 1"
  by (auto simp: borrow_body_def Let_def split: res.splits bool.splits if_splits)

lemma delete_intervals_loop_terminates:
  assumes "status (last_data s) = INTERESTING"
  shows "\<exists>r. delete_intervals_loop e s = Some r"
  unfolding delete_intervals_loop_def
proof (rule while_index_terminates[where bound = "\<lambda>d. length (intervals d)" and e = e, OF assms])
  fix i t i' t'
  assume "status (last_data t) = INTERESTING" "i < length (intervals (last_data t))"
    "delete_intervals_body e i t = Ret i' t'"
  with delete_intervals_body_follows[OF reach_refl, of i t e] delete_intervals_body_Ret[of e i t i' t']
  show "reach e t t' \<and> (i' = i + 1 \<or> i' = i \<and> shrinks t < shrinks t')" by simp
qed simp

lemma sort_intervals_pass_terminates:
  assumes "status (last_data s) = INTERESTING"
  shows "\<exists>r. sort_intervals_pass e s = Some r"
  unfolding sort_intervals_pass_def
proof (rule while_index_terminates[where bound = "\<lambda>d. length (intervals d)" and e = e, OF assms])
  fix i t i' t'
  assume "status (last_data t) = INTERESTING" "i < length (intervals (last_data t))"
    "sort_intervals_body e i t = Ret i' t'"
  with sort_intervals_body_follows[OF reach_refl, of i t e] sort_intervals_body_Ret[of e i t i' t']
  show "reach e t t' \<and> (i' = i + 1 \<or> i' = i \<and> shrinks t < shrinks t')" by simp
qed simp

lemma single_byte_pass_terminates:
  assumes "status (last_data s) = INTERESTING"
  shows "\<exists>r. single_byte_pass e s = Some r"
  unfolding single_byte_pass_def
proof (rule while_index_terminates[where bound = "\<lambda>d. length (buffer d)" and e = e, OF assms])
  fix i t i' t'
  assume "status (last_data t) = INTERESTING" "i < length (buffer (last_data t))"
    "single_byte_body e i t = Ret i' t'"
  with single_byte_body_follows[OF reach_refl, of i t e] single_byte_body_Ret[of e i t i' t']
  show "reach e t t' \<and> (i' = i + 1 \<or> i' = i \<and> shrinks t < shrinks t')" by simp
qed simp

lemma adjacent_swap_pass_terminates:
  assumes "status (last_data s) = INTERESTING"
  shows "\<exists>r. adjacent_swap_pass e s = Some r"
  unfolding adjacent_swap_pass_def
proof (rule while_index_terminates[where bound = "\<lambda>d. length (buffer d)" and e = e, OF assms])
  fix i t i' t'
  assume "status (last_data t) = INTERESTING" "i + 1 < length (buffer (last_data t))"
    "adjacent_swap_body e i t = Ret i' t'"
  with adjacent_swap_body_follows[OF reach_refl, of i t e] adjacent_swap_body_Ret[of e i t i' t']
  show "reach e t t' \<and> (i' = i + 1 \<or> i' = i \<and> shrinks t < shrinks t')" by simp
qed simp

lemma borrow_pass_terminates:
  assumes "status (last_data s) = INTERESTING"
  shows "\<exists>r. borrow_pass e s = Some r"
  unfolding borrow_pass_def
proof (rule while_index_terminates[where bound = "\<lambda>d. length (buffer d)" and e = e, OF assms])
  fix i t i' t'
  assume "status (last_data t) = INTERESTING" "i < length (buffer (last_data t))"
    "borrow_body e i t = Ret i' t'"
  with borrow_body_follows[OF reach_refl, of i t e] borrow_body_Ret[of e i t i' t']
  show "reach e t t' \<and> (i' = i + 1 \<or> i' = i \<and> shrinks t < shrinks t')" by simp
qed simp

lemma delete_intervals_pass_terminates:
  assumes "status (last_data s) = INTERESTING"
  shows "\<exists>r. delete_intervals_pass e s = Some r"
  unfolding delete_intervals_pass_def
proof (rule while_loop_terminates[where
      I = "\<lambda>(c :: int) (t :: runner). status (last_data t) = INTERESTING" and
      R = "inv_image (less_than <*lex*> less_than)
             (\<lambda>(c :: int, t :: runner).
                (shrink_measure e t, if changed t > c then 1 else (0 :: nat)))"])
  show "wf (inv_image (less_than <*lex*> less_than)
             (\<lambda>(c :: int, t :: runner).
                (shrink_measure e t, if changed t > c then 1 else (0 :: nat))))"
    by (intro wf_inv_image wf_lex_prod wf_less_than)
next
  show "status (last_data s) = INTERESTING" by (rule assms)
next
  fix c :: int and t :: runner
  assume I: "status (last_data t) = INTERESTING" and b: "c < changed t"
  from delete_intervals_loop_terminates[OF I, of e] obtain r0
    where r0: "delete_intervals_loop e t = Some r0" by blast
  then obtain r where r: "delete_intervals_round e c t = Some r"
    by (cases r0) (auto simp: delete_intervals_round_def)
  have "status (last_data t') = INTERESTING \<and>
        ((c', t'), (c, t)) \<in> inv_image (less_than <*lex*> less_than)
             (\<lambda>(c :: int, t :: runner).
                (shrink_measure e t, if changed t > c then 1 else (0 :: nat)))"
    if rr: "r = Ret c' t'" for c' t'
  proof -
    from r rr have c': "c' = changed t"
      by (auto simp: delete_intervals_round_def split: option.splits res.splits)
    from delete_intervals_round_follows[OF r reach_refl] rr have "reach e t t'" by simp
    from reach_progress[OF this I] c' b show ?thesis
      by (auto simp: shrink_measure_def)
  qed
  with r show "\<exists>r. delete_intervals_round e c t = Some r \<and>
         (\<forall>v' s'. r = Ret v' s' \<longrightarrow>
            status (last_data s') = INTERESTING \<and>
            ((v', s'), (c, t)) \<in> inv_image (less_than <*lex*> less_than)
               (\<lambda>(c :: int, t :: runner).
                  (shrink_measure e t, if changed t > c then 1 else (0 :: nat))))"
    by auto
qed


lemma then_do_terminates:
  assumes "\<exists>r. m = Some r" and "\<And>v s'. m = Some (Ret v s') \<Longrightarrow> \<exists>r. f v s' = Some r"
  shows "\<exists>r. then_do m f = Some r"
proof -
  from assms(1) obtain r where r: "m = Some r" by blast
  show ?thesis
  proof (cases r)
    case (Ret v s')
    with r assms(2)[of v s'] show ?thesis by (simp add: then_do_def)
  next
    case (Raise x s')
    with r show ?thesis by (simp add: then_do_def)
  qed
qed

lemma follows_interesting:
  "follows e s (Ret v s') \<Longrightarrow> status (last_data s) = INTERESTING \<Longrightarrow>
   status (last_data s') = INTERESTING"
  by (auto dest: reach_interesting)

lemma passes_interesting:
  assumes "status (last_data s) = INTERESTING"
  shows "delete_intervals_pass e s = Some (Ret v1 s') \<Longrightarrow> status (last_data s') = INTERESTING"
    and "sort_intervals_pass e s = Some (Ret v2 s') \<Longrightarrow> status (last_data s') = INTERESTING"
    and "zero_window_pass e s = Ret v3 s' \<Longrightarrow> status (last_data s') = INTERESTING"
    and "single_byte_pass e s = Some (Ret v4 s') \<Longrightarrow> status (last_data s') = INTERESTING"
    and "adjacent_swap_pass e s = Some (Ret v5 s') \<Longrightarrow> status (last_data s') = INTERESTING"
    and "borrow_pass e s = Some (Ret v6 s') \<Longrightarrow> status (last_data s') = INTERESTING"
    and "equal_pairs_pass e s = Ret v7 s' \<Longrightarrow> status (last_data s') = INTERESTING"
  using assms
    delete_intervals_pass_follows[OF _ reach_refl, of e s "Ret v1 s'"]
    sort_intervals_pass_follows[OF _ reach_refl, of e s "Ret v2 s'"]
    zero_window_pass_follows[OF reach_refl, of e s]
    single_byte_pass_follows[OF _ reach_refl, of e s "Ret v4 s'"]
    adjacent_swap_pass_follows[OF _ reach_refl, of e s "Ret v5 s'"]
    borrow_pass_follows[OF _ reach_refl, of e s "Ret v6 s'"]
    equal_pairs_pass_follows[OF reach_refl, of e s]
  by (auto dest: reach_interesting)

lemma shrink_sweep_terminates:
  assumes "status (last_data s) = INTERESTING"
  shows "\<exists>r. shrink_sweep e s = Some r"
  using assms
  apply (simp add: shrink_sweep_def Let_def)
  apply (rule then_do_terminates, erule delete_intervals_pass_terminates)
  apply (drule (1) passes_interesting(1)[rotated])
  apply (rule then_do_terminates, erule sort_intervals_pass_terminates)
  apply (drule (1) passes_interesting(2)[rotated])
  apply (rule then_do_terminates, simp)
  apply (drule (1) passes_interesting(3)[rotated, OF option.inject[THEN iffD1]])
  apply (rule then_do_terminates, erule single_byte_pass_terminates)
  apply (drule (1) passes_interesting(4)[rotated])
  apply (rule then_do_terminates, erule adjacent_swap_pass_terminates)
  apply (drule (1) passes_interesting(5)[rotated])
  apply (split if_split, rule conjI)
   apply simp
  apply (rule impI)
  apply (rule then_do_terminates, erule borrow_pass_terminates)
  apply (drule (1) passes_interesting(6)[rotated])
  apply (split if_split, rule conjI)
   apply simp
  apply (rule impI)
  apply (rule then_do_terminates, simp)
  apply simp
  done


lemma shrink_loop_terminates:
  assumes "status (last_data s) = INTERESTING"
  shows "\<exists>r. shrink_loop e s = Some r"
  unfolding shrink_loop_def Let_def
proof (rule while_loop_terminates[where
      I = "\<lambda>(c :: int) (t :: runner). status (last_data t) = INTERESTING" and
      R = "measure (\<lambda>(c :: int, t :: runner).
                      nat (changed s + max_shrinks (settings e) - c))"])
  show "wf (measure (\<lambda>(c :: int, t :: runner).
                      nat (changed s + max_shrinks (settings e) - c)))"
    by simp
next
  show "status (last_data s) = INTERESTING" by (rule assms)
next
  fix c :: int and t :: runner
  assume I: "status (last_data t) = INTERESTING"
    and b: "changed t \<le> changed s + max_shrinks (settings e) \<and> c < changed t"
  from shrink_sweep_terminates[OF I, of e] obtain r0 where r0: "shrink_sweep e t = Some r0"
    by blast
  show "\<exists>r. then_do (shrink_sweep e t) (\<lambda>_ s'. Some (Ret (changed t) s')) = Some r \<and>
         (\<forall>v' s'. r = Ret v' s' \<longrightarrow>
            status (last_data s') = INTERESTING \<and>
            ((v', s'), (c, t)) \<in> measure (\<lambda>(c :: int, t :: runner).
                      nat (changed s + max_shrinks (settings e) - c)))"
  proof (cases r0)
    case (Raise x t')
    with r0 show ?thesis by (simp add: then_do_def)
  next
    case (Ret u t')
    from shrink_sweep_follows[OF r0 reach_refl I] Ret I
    have "status (last_data t') = INTERESTING" by (auto dest: reach_interesting)
    with r0 Ret b show ?thesis by (simp add: then_do_def)
  qed
qed

lemma reach_executed:
  assumes "reach e s t" and "\<exists>b. last_data s = execute e b"
  shows "\<exists>b. last_data t = execute e b"
  using assms
proof (induction rule: reach.induct)
  case (reach_step t b x u)
  show ?case
  proof (cases x)
    case True
    with reach_step(3) incorporate_True(1)[of e t b u] show ?thesis by auto
  next
    case False
    with reach_step incorporate_False(1)[of e t b u] show ?thesis by auto
  qed
qed (auto simp: new_buffer_last_data)

lemma raised_in_shrink_phase:
  assumes "raised e s x t" and "status (last_data s) = INTERESTING"
    and "interval_integrity e" and "\<exists>b. last_data s = execute e b"
  shows "x = StopShrinking \<and> max_shrinks (settings e) \<le> shrinks t"
proof -
  from assms(1) obtain t' b where r: "reach e s t'"
    and c: "status (last_data t') = INTERESTING \<longrightarrow> candidate t' b"
    and i: "incorporate_new_buffer e t' b = Raise x t"
    unfolding raised_def by blast
  from reach_interesting[OF r assms(2)] c have c': "shrink_candidate (last_data t') b"
    by (simp add: candidate_def)
  from reach_executed[OF r assms(4)] obtain b' where "last_data t' = execute e b'" by blast
  with integrity_execute[OF assms(3), of b']
  have "\<forall>(u, v) \<in> set (intervals (last_data t')). u \<le> v" by simp
  from shrink_candidate_length[OF c' this]
  have len: "length b \<le> length (buffer (last_data t'))" .
  from incorporate_Raise[OF i] show ?thesis
  proof
    assume "x = StopShrinking \<and> last_data t = execute e b \<and>
          consider_new_test_data (last_data t') (execute e b) = Inr True \<and>
          log t = Accepted (execute e b) # log t' \<and>
          changed t = changed t' + 1 \<and>
          shrinks t = (if status (last_data t') = INTERESTING then shrinks t' + 1 else shrinks t') \<and>
          shrinks t \<ge> max_shrinks (settings e)"
    then show ?thesis by simp
  next
    assume "x = AssertionError \<and> last_data t = last_data t' \<and>
          consider_new_test_data (last_data t') (execute e b) = Inl AssertionError \<and>
          log t = Failed (execute e b) # log t' \<and>
          changed t = changed t' \<and> shrinks t = shrinks t'"
    then have "consider_new_test_data (last_data t') (execute e b) = Inl AssertionError"
      by simp
    from consider_Inl(4)[OF this] len show ?thesis by simp
  qed
qed

lemma shrink_loop_exit:
  assumes "shrink_loop e s = Some r" and int: "status (last_data s) = INTERESTING"
    and "shrinks s = 0" and "0 \<le> changed s"
    and "interval_integrity e" and "\<exists>b. last_data s = execute e b"
  shows "case r of
           Ret c t \<Rightarrow>
             (\<exists>t0. reach e s t0 \<and> shrink_sweep e t0 = Some (Ret () t) \<and>
                   changed t = changed t0) \<or>
             (max_shrinks (settings e) < 0 \<and> t = s)
         | Raise x t \<Rightarrow> x = StopShrinking \<and> max_shrinks (settings e) \<le> shrinks t"
proof -
  let ?I = "\<lambda>(c :: int) t. reach e s t \<and>
              (c = - 1 \<and> t = s \<or>
               (\<exists>t0. reach e s t0 \<and> shrink_sweep e t0 = Some (Ret () t) \<and> c = changed t0 \<and>
                     0 \<le> max_shrinks (settings e)))"
  have main: "case r of
          Ret c t \<Rightarrow> ?I c t \<and>
            \<not> (changed s + max_shrinks (settings e) \<ge> changed t \<and> changed t > c)
        | Raise x t \<Rightarrow> raised e s x t"
    using assms(1)[unfolded shrink_loop_def Let_def]
  proof (rule while_loop_rule[where I = ?I and Q = "raised e s"])
    show "?I (- 1) s" by (simp add: reach_refl)
  next
    fix v t v' t'
    assume I: "?I v t"
      and c: "changed s + max_shrinks (settings e) \<ge> changed t \<and> changed t > v"
      and b: "then_do (shrink_sweep e t) (\<lambda>_ s'. Some (Ret (changed t) s')) = Some (Ret v' t')"
    from I int have it: "status (last_data t) = INTERESTING" and rt: "reach e s t"
      by (auto dest: reach_interesting)
    from reach_progress[OF rt int] c have ms: "0 \<le> max_shrinks (settings e)" by auto
    from b have sw: "shrink_sweep e t = Some (Ret () t')" and v': "v' = changed t"
      by (cases rule: then_do_SomeE; auto)+
    from shrink_sweep_follows[OF sw rt it] have "reach e s t'" by simp
    with rt sw v' ms show "?I v' t'" by auto
  next
    fix v t x t'
    assume I: "?I v t"
      and b: "then_do (shrink_sweep e t) (\<lambda>_ s'. Some (Ret (changed t) s')) = Some (Raise x t')"
    from I int have it: "status (last_data t) = INTERESTING" and rt: "reach e s t"
      by (auto dest: reach_interesting)
    from b have sw: "shrink_sweep e t = Some (Raise x t')"
      by (cases rule: then_do_SomeE) auto
    from shrink_sweep_follows[OF sw rt it] show "raised e s x t'" by simp
  qed
  show ?thesis
  proof (cases r)
    case (Raise x t)
    with main raised_in_shrink_phase[OF _ int assms(5,6), of x t] show ?thesis by simp
  next
    case (Ret c t)
    with main have rt: "reach e s t"
      and alt: "c = - 1 \<and> t = s \<or>
               (\<exists>t0. reach e s t0 \<and> shrink_sweep e t0 = Some (Ret () t) \<and> c = changed t0 \<and>
                     0 \<le> max_shrinks (settings e))"
      and ex: "\<not> (changed s + max_shrinks (settings e) \<ge> changed t \<and> changed t > c)"
      by auto
    from alt show ?thesis
    proof
      assume a: "c = - 1 \<and> t = s"
      with ex assms(4) have "max_shrinks (settings e) < 0" by simp
      with a Ret show ?thesis by simp
    next
      assume "\<exists>t0. reach e s t0 \<and> shrink_sweep e t0 = Some (Ret () t) \<and> c = changed t0 \<and>
                     0 \<le> max_shrinks (settings e)"
      then obtain t0 where t0: "reach e s t0" "shrink_sweep e t0 = Some (Ret () t)"
        "c = changed t0" and ms: "0 \<le> max_shrinks (settings e)" by blast
      from reach_progress[OF rt int] assms(3) ms
      have le: "changed t \<le> changed s + max_shrinks (settings e)" by auto
      from reach_interesting[OF t0(1) int] have i0: "status (last_data t0) = INTERESTING" .
      from shrink_sweep_follows[OF t0(2) reach_refl i0] have "reach e t0 t" by simp
      from reach_progress[OF this i0] have "changed t0 \<le> changed t" by auto
      with ex le t0(3) have "changed t = changed t0" by simp
      with t0(1,2) Ret show ?thesis by auto
    qed
  qed
qed


lemma wf_byte_less: "wf {(a, b :: byte). a < b}"
proof (rule wf_subset)
  show "wf (measure (unat :: byte \<Rightarrow> nat))" by simp
  show "{(a, b :: byte). a < b} \<subseteq> measure unat" by (auto simp: word_less_nat_alt)
qed

lemma wf_interest_key: "wf {(d', d). interest_key d' < interest_key d}"
proof (rule wf_subset)
  let ?R = "less_than <*lex*> less_than <*lex*> less_than <*lex*> lex {(a, b :: byte). a < b}"
  show "wf (inv_image ?R interest_key)"
    by (intro wf_inv_image wf_lex_prod wf_less_than wf_lex wf_byte_less)
  show "{(d', d). interest_key d' < interest_key d} \<subseteq> inv_image ?R interest_key"
    by (auto simp: interest_key_def less_prod_def list_less_def lexord_lex)
qed

lemma shrink_loop_tiny_start: "shrink_loop tiny_env tiny_start = Some (Ret 1 tiny_final)"
  by (simp add: tiny_env_def tiny_start_def tiny_final_def always_interesting_def run_eval)

lemma shrink_sweep_tiny_final: "shrink_sweep tiny_env tiny_final = Some (Ret () tiny_final)"
  by (simp add: tiny_env_def tiny_final_def always_interesting_def run_eval)

lemma interval_integrity_tiny_env: "interval_integrity tiny_env"
  by (simp add: interval_integrity_def tiny_env_def always_interesting_def)

text \<open>
  Claim C6. Started on an interesting record, the shrink phase returns or raises; it does
  not run forever. When it starts as it does in a run (no shrink counted yet, a record
  made by the callback, well-formed intervals), it ends in one of two ways: the last round
  of the outer loop ran through without a change to \<^verbatim>\<open>changed\<close>, or the budget is used
  up: \<^verbatim>\<open>StopShrinking\<close> was raised with the count of accepted transitions at
  \<^verbatim>\<open>max_shrinks\<close>, or \<^verbatim>\<open>max_shrinks\<close> is negative and the loop is not entered. The
  order of interest keys, which every accepted replacement descends, is well-founded.
\<close>

theorem shrink_phase_terminates:
  assumes "status (last_data s) = INTERESTING"
  shows "(\<exists>r. shrink_loop e s = Some r \<and>
            (shrinks s = 0 \<and> 0 \<le> changed s \<and>
             interval_integrity e \<and> (\<exists>b. last_data s = execute e b) \<longrightarrow>
             (case r of
                Ret c t \<Rightarrow>
                  (\<exists>t0. shrink_sweep e t0 = Some (Ret () t) \<and> changed t = changed t0) \<or>
                  (max_shrinks (settings e) < 0 \<and> t = s)
              | Raise x t \<Rightarrow> x = StopShrinking \<and> max_shrinks (settings e) \<le> shrinks t))) \<and>
         wf {(d', d). interest_key d' < interest_key d}"
proof -
  from shrink_loop_terminates[OF assms, of e] obtain r where r: "shrink_loop e s = Some r"
    by blast
  have "case r of
          Ret c t \<Rightarrow>
            (\<exists>t0. shrink_sweep e t0 = Some (Ret () t) \<and> changed t = changed t0) \<or>
            (max_shrinks (settings e) < 0 \<and> t = s)
        | Raise x t \<Rightarrow> x = StopShrinking \<and> max_shrinks (settings e) \<le> shrinks t"
    if "shrinks s = 0" "0 \<le> changed s" "interval_integrity e" "\<exists>b. last_data s = execute e b"
    using shrink_loop_exit[OF r assms that] by (cases r) auto
  with r wf_interest_key show ?thesis by blast
qed

theorem shrink_phase_terminates_witness:
  "status (last_data tiny_start) = INTERESTING \<and>
   shrinks tiny_start = 0 \<and> changed tiny_start = 0 \<and>
   max_shrinks (settings tiny_env) = 5 \<and>
   interval_integrity tiny_env \<and>
   last_data tiny_start = execute tiny_env [0] \<and>
   shrink_loop tiny_env tiny_start = Some (Ret 1 tiny_final) \<and>
   shrink_sweep tiny_env tiny_final = Some (Ret () tiny_final)"
  using shrink_phase_terminates[of tiny_start tiny_env] shrink_loop_tiny_start
    shrink_sweep_tiny_final interval_integrity_tiny_env
  by (simp add: tiny_start_def tiny_env_def always_interesting_def execute_def)


section \<open>The mutator on an overrun record\<close>

text \<open>
  Claim C7 fails on the code. For this \<^verbatim>\<open>OVERRUN\<close> record (three bytes of value five, all
  read) the per-byte loop fills \<^verbatim>\<open>result\<close> with three zero bytes, and the mutator then
  goes on to the splice branch and returns the original buffer with its first byte
  replaced by \<^verbatim>\<open>0xFF\<close>: \<^verbatim>\<open>result\<close> is not returned, and a splice is applied.
\<close>

theorem mutator_discards_perturbed_bytes:
  "status overrun_data = OVERRUN \<and>
   min (length (buffer overrun_data)) (index overrun_data) = 3 \<and>
   perturb splice_env (buffer overrun_data) 0 = ([0, 0, 0], 3) \<and>
   mutate_data_to_new_buffer splice_env overrun_data 0 = Some (Ret [255, 5, 5] 8)"
  by (simp add: overrun_data_def splice_env_def mutate_data_to_new_buffer_def randint_def
        urandom_def Let_def)

text \<open>So the buffer returned is not the perturbed one.\<close>

theorem mutator_discards_perturbed_bytes_witness:
  "mutate_data_to_new_buffer splice_env overrun_data 0 \<noteq>
     Some (Ret (fst (perturb splice_env (buffer overrun_data) 0))
               (snd (perturb splice_env (buffer overrun_data) 0)))"
  using mutator_discards_perturbed_bytes by simp

section \<open>The zero-window pass\<close>

lemma replicate_8: "replicate 8 x = [x, x, x, x, x, x, x, x]"
  by (simp add: eval_nat_numeral)


text \<open>
  Claim C9 fails on the code. The buffer has eight bytes, so the window that starts at
  index 0 lies within it, and zeroing it would be accepted; the pass proposes nothing and
  leaves the runner as it was, because its range of start indices is
  \<^verbatim>\<open>range(len(buffer) - 8)\<close>, which is empty.
\<close>

theorem zero_window_skips_last_window:
  "length (buffer (last_data eight_bytes)) = 8 \<and>
   zero_window_pass tiny_env eight_bytes = Ret () eight_bytes \<and>
   incorporate_new_buffer tiny_env eight_bytes
     (take 0 (buffer (last_data eight_bytes)) @ replicate 8 0 @
      drop (0 + 8) (buffer (last_data eight_bytes)))
   = Ret True
       \<lparr>changed = 1, shrinks = 1, fill_size = 1, rpos = 8,
        log = [Accepted (always_interesting [0, 0, 0, 0, 0, 0, 0, 0]),
               NewBuffer (always_interesting [1, 1, 1, 1, 1, 1, 1, 1])],
        last_data = always_interesting [0, 0, 0, 0, 0, 0, 0, 0]\<rparr>"
  by (simp add: eight_bytes_def tiny_env_def always_interesting_def zero_window_pass_def
        incorporate_new_buffer_def consider_new_test_data_def interest_key_def execute_def
        update_fill_size_def less_status_def Let_def replicate_8)

text \<open>So the pass does not do what proposing the window at index 0 would have done.\<close>

theorem zero_window_skips_last_window_witness:
  "zero_window_pass tiny_env eight_bytes \<noteq>
     Ret ()
       \<lparr>changed = 1, shrinks = 1, fill_size = 1, rpos = 8,
        log = [Accepted (always_interesting [0, 0, 0, 0, 0, 0, 0, 0]),
               NewBuffer (always_interesting [1, 1, 1, 1, 1, 1, 1, 1])],
        last_data = always_interesting [0, 0, 0, 0, 0, 0, 0, 0]\<rparr>"
  using zero_window_skips_last_window by (simp add: eight_bytes_def)

end
